theory Spec2Isabelle
  imports Main "HOL-Library.Sublist"
begin

section \<open>Python strings\<close>

text \<open>
  A Python \<open>str\<close> is a sequence of Unicode code points. The model keeps it as a list of
  code points (natural numbers), so that the whitespace set of \<open>str.split()\<close> and
  \<open>str.strip()\<close> and the surrogates that UTF-8 cannot encode are all expressible.
  \<open>py\<close> turns an ASCII literal into such a string.
\<close>

type_synonym pystr = "nat list"

definition py :: "string \<Rightarrow> pystr" where
  "py s = map of_char s"

text \<open>The code points for which \<open>str.isspace\<close> holds: the separators of \<open>split()\<close> and
  the characters removed by \<open>strip()\<close>.\<close>

definition isspace :: "nat \<Rightarrow> bool" where
  "isspace c \<longleftrightarrow>
     (9 \<le> c \<and> c \<le> 13) \<or> (28 \<le> c \<and> c \<le> 32) \<or> c = 133 \<or> c = 160 \<or> c = 5760 \<or>
     (8192 \<le> c \<and> c \<le> 8202) \<or> c = 8232 \<or> c = 8233 \<or> c = 8239 \<or> c = 8287 \<or> c = 12288"

text \<open>\<open>s.strip()\<close>\<close>

definition strip :: "pystr \<Rightarrow> pystr" where
  "strip s = rev (dropWhile isspace (rev (dropWhile isspace s)))"

text \<open>\<open>s.split()\<close>: the maximal runs of non-whitespace characters; \<open>cur\<close> is the word
  being read.\<close>

fun split_words :: "pystr \<Rightarrow> pystr \<Rightarrow> pystr list" where
  "split_words cur [] = (if cur = [] then [] else [cur])"
| "split_words cur (c # cs) =
     (if isspace c then (if cur = [] then split_words [] cs else cur # split_words [] cs)
      else split_words (cur @ [c]) cs)"

definition str_split :: "pystr \<Rightarrow> pystr list" where
  "str_split s = split_words [] s"

text \<open>\<open>s.split(sep)\<close> for a one-character separator: empty fields are kept, and the empty
  string gives one empty field.\<close>

fun split_on :: "nat \<Rightarrow> pystr \<Rightarrow> pystr list" where
  "split_on sep [] = [[]]"
| "split_on sep (c # cs) =
     (if c = sep then [] # split_on sep cs
      else (case split_on sep cs of [] \<Rightarrow> [[c]] | w # ws \<Rightarrow> (c # w) # ws))"

text \<open>\<open>sep.join(ws)\<close>\<close>

fun str_join :: "pystr \<Rightarrow> pystr list \<Rightarrow> pystr" where
  "str_join sep [] = []"
| "str_join sep [w] = w"
| "str_join sep (w # v # ws) = w @ sep @ str_join sep (v # ws)"

text \<open>\<open>s.replace(old, new)\<close> for a one-character \<open>old\<close>.\<close>

definition str_replace :: "nat \<Rightarrow> pystr \<Rightarrow> pystr \<Rightarrow> pystr" where
  "str_replace old new s = concat (map (\<lambda>c. if c = old then new else [c]) s)"

text \<open>\<open>s.startswith(p)\<close>\<close>

definition startswith :: "pystr \<Rightarrow> pystr \<Rightarrow> bool" where
  "startswith s p \<longleftrightarrow> take (length p) s = p"

text \<open>Decimal digits of a natural number, and the format specification \<open>02d\<close>: the sign
  counts towards the width of two, the zeros come after it.\<close>

fun digits :: "nat \<Rightarrow> pystr" where
  "digits n = (if n < 10 then [48 + n] else digits (n div 10) @ [48 + n mod 10])"

definition zfill :: "nat \<Rightarrow> pystr \<Rightarrow> pystr" where
  "zfill w s = replicate (w - length s) 48 @ s"

definition format_02d :: "int \<Rightarrow> pystr" where
  "format_02d n = (if n < 0 then 45 # zfill 1 (digits (nat (- n))) else zfill 2 (digits (nat n)))"


section \<open>Configuration (config.py)\<close>

text \<open>
  The module-level constants the scraper reads. The orchestrator and the fetcher take
  them as one value, so that a theorem can speak about every configuration. The
  filename template and the table of replaced characters are fixed below.
\<close>

record config =
  START_VIDEO_ID :: int
  END_VIDEO_ID :: int
  SEASON_EPISODES :: "int list"
  STARTING_SEASON :: int
  STARTING_EPISODE :: int
  MIN_DELAY :: int
  MAX_DELAY :: int
  MAX_RETRIES :: int
  VIDEO_URL_PATTERNS :: "pystr list"
  TITLE_SELECTORS :: "pystr list"
  SAVE_DEBUG_HTML :: bool
  MIN_HTML_LENGTH :: int

text \<open>\<open>FILENAME_REPLACE_CHARS\<close>, in the insertion order of the dictionary: backslash, slash,
  colon, asterisk, question mark, double quote, less-than, greater-than, pipe.\<close>

definition FILENAME_REPLACE_CHARS :: "(nat \<times> pystr) list" where
  "FILENAME_REPLACE_CHARS =
     [(92, py ''_''), (47, py ''_''), (58, py ''_''), (42, py ''_''), (63, py ''_''),
      (34, py ''_''), (60, py ''_''), (62, py ''_''), (124, py ''_'')]"

text \<open>The characters the specification calls unsafe: the keys of that table.\<close>

definition unsafe :: "nat \<Rightarrow> bool" where
  "unsafe c \<longleftrightarrow> c \<in> {92, 47, 58, 42, 63, 34, 60, 62, 124}"


section \<open>The outside world\<close>

text \<open>
  Exceptions are values. The fetcher has one handler for \<open>requests.exceptions.Timeout\<close>
  and one for every other \<open>Exception\<close>; the orchestrator can raise \<open>IndexError\<close>.
\<close>

datatype exn = Timeout | IndexError | Exception

record response =
  status_code :: int
  response_text :: pystr

text \<open>A match of a pattern in a string: the text it matched (\<open>m.group()\<close>) and the texts
  of the capture groups of the pattern, a group that took no part given as the empty
  string, as \<open>re.findall\<close> reports it.\<close>

record re_match =
  matched :: pystr
  captures :: "pystr list"

text \<open>An item of the list \<open>re.findall\<close> returns: a string, or a tuple of groups (at least
  two, so the tuple is given by its first component and the others).\<close>

datatype re_item = Str pystr | Groups pystr "pystr list"

text \<open>What \<open>re.findall\<close> returns for a match: the matched text when the pattern has no
  group, the group when it has one, and the tuple of the groups when it has more.\<close>

definition findall_item :: "re_match \<Rightarrow> re_item" where
  "findall_item m =
     (case captures m of
        [] \<Rightarrow> Str (matched m)
      | [g] \<Rightarrow> Str g
      | g # gs \<Rightarrow> Groups g gs)"

text \<open>A parsed page answers \<open>select_one\<close> and \<open>find\<close> with no element, with the text of
  the element found, or with an exception.\<close>

record soup =
  soup_select_one :: "pystr \<Rightarrow> exn + pystr option"
  soup_find :: "pystr \<Rightarrow> exn + pystr option"

text \<open>
  The collaborators of a run: the HTTP session (what the \<open>attempt\<close>-th GET for a video
  identifier yields), the regular-expression engine with \<open>re.IGNORECASE\<close> (the matches of
  a pattern in a string that do not overlap, from left to right), and the HTML parser.
  Each may raise.
\<close>

record env =
  session_get :: "int \<Rightarrow> int \<Rightarrow> exn + response"
  re_finditer :: "pystr \<Rightarrow> pystr \<Rightarrow> exn + re_match list"
  BeautifulSoup :: "pystr \<Rightarrow> exn + soup"

text \<open>\<open>re.findall(pattern, string, re.IGNORECASE)\<close>: one item for each match.\<close>

definition re_findall :: "env \<Rightarrow> pystr \<Rightarrow> pystr \<Rightarrow> exn + re_item list" where
  "re_findall env pattern s =
     (case re_finditer env pattern s of
        Inl e \<Rightarrow> Inl e
      | Inr ms \<Rightarrow> Inr (map findall_item ms))"


section \<open>The fetcher (video_scraper.py)\<close>

definition is_page_loaded :: "config \<Rightarrow> pystr \<Rightarrow> bool" where
  "is_page_loaded cfg html_content \<longleftrightarrow> int (length html_content) \<ge> MIN_HTML_LENGTH cfg"

text \<open>\<open>matches[0] if isinstance(matches[0], str) else matches[0][0]\<close>, as a function of
  \<open>matches[0]\<close>.\<close>

fun first_of :: "re_item \<Rightarrow> pystr" where
  "first_of (Str m) = m"
| "first_of (Groups g gs) = g"

text \<open>\<open>_extract_video_url\<close>: the loop over \<open>VIDEO_URL_PATTERNS\<close>. An exception of
  \<open>re.findall\<close> leaves the function.\<close>

fun extract_video_url :: "env \<Rightarrow> pystr list \<Rightarrow> pystr \<Rightarrow> exn + pystr option" where
  "extract_video_url env [] html_content = Inr None"
| "extract_video_url env (pattern # rest) html_content =
     (case re_findall env pattern html_content of
        Inl e \<Rightarrow> Inl e
      | Inr [] \<Rightarrow> extract_video_url env rest html_content
      | Inr (m # ms) \<Rightarrow> Inr (Some (first_of m)))"

text \<open>\<open>_sanitize_filename\<close>\<close>

definition sanitize_filename :: "pystr \<Rightarrow> pystr" where
  "sanitize_filename filename =
     str_join (py '' '')
       (str_split (fold (\<lambda>(char, replacement) f. str_replace char replacement f)
                        FILENAME_REPLACE_CHARS filename))"

text \<open>\<open>_extract_title\<close>: the loop over \<open>TITLE_SELECTORS\<close>. \<open>lookup\<close> is the choice between
  \<open>select_one\<close> and \<open>find\<close>; an exception inside the loop body is caught and the next
  selector is tried.\<close>

definition lookup :: "soup \<Rightarrow> pystr \<Rightarrow> exn + pystr option" where
  "lookup page selector =
     (if startswith selector (py ''.'') then soup_select_one page selector
      else soup_find page selector)"

fun extract_title :: "soup \<Rightarrow> pystr list \<Rightarrow> pystr" where
  "extract_title page [] = py ''Unknown_Title''"
| "extract_title page (selector # rest) =
     (case lookup page selector of
        Inl e \<Rightarrow> extract_title page rest
      | Inr None \<Rightarrow> extract_title page rest
      | Inr (Some element_text) \<Rightarrow>
          if strip element_text \<noteq> [] then sanitize_filename (strip element_text)
          else extract_title page rest)"

text \<open>\<open>_create_filename\<close> with \<open>FILENAME_FORMAT = "S{season:02d}-E{episode:02d}-{title}.mp4"\<close>\<close>

definition create_filename :: "int \<Rightarrow> int \<Rightarrow> pystr \<Rightarrow> pystr" where
  "create_filename season episode title =
     py ''S'' @ format_02d season @ py ''-E'' @ format_02d episode @ py ''-'' @ title @ py ''.mp4''"

text \<open>\<open>_handle_request_error\<close>: whether to retry.\<close>

definition handle_request_error :: "config \<Rightarrow> response \<Rightarrow> bool" where
  "handle_request_error cfg r =
     (if status_code r \<noteq> 200 then True
      else if \<not> is_page_loaded cfg (response_text r) then True
      else False)"

text \<open>
  What the fetcher does that the outside can see: a GET (video identifier, attempt), a
  sleep of \<open>random.uniform(lo, hi)\<close> seconds before a retry, the debug copy of the page,
  and the final error message.
\<close>

datatype fetch_event =
    Get int int
  | Backoff int int
  | DebugHtml int
  | AllAttemptsFailed int

text \<open>How one pass through the body of the retry loop ends: \<open>return\<close>, or on to the next
  attempt (\<open>continue\<close>, or the end of an exception handler).\<close>

datatype attempt_result = Return "(pystr \<times> pystr) option" | Continue

text \<open>The block repeated four times in \<open>get_video_info\<close>: sleep and \<open>continue\<close> unless
  this is the last attempt; \<open>otherwise\<close> is what follows the block.\<close>

definition retry_unless_last ::
  "config \<Rightarrow> int \<Rightarrow> int \<Rightarrow> int \<Rightarrow> attempt_result \<Rightarrow> fetch_event list \<times> attempt_result" where
  "retry_unless_last cfg attempt lo hi otherwise =
     (if attempt < MAX_RETRIES cfg - 1 then ([Backoff lo hi], Continue) else ([], otherwise))"

text \<open>The two \<open>except\<close> clauses.\<close>

definition handle_exception ::
  "config \<Rightarrow> int \<Rightarrow> exn \<Rightarrow> fetch_event list \<times> attempt_result" where
  "handle_exception cfg attempt e =
     (case e of
        Timeout \<Rightarrow> retry_unless_last cfg attempt 5 8 Continue
      | _ \<Rightarrow> retry_unless_last cfg attempt 2 4 Continue)"

definition emit :: "'e list \<Rightarrow> 'e list \<times> 'a \<Rightarrow> 'e list \<times> 'a" where
  "emit evs r = (evs @ fst r, snd r)"

text \<open>The body of \<open>for attempt in range(MAX_RETRIES)\<close>.\<close>

definition attempt_body ::
  "config \<Rightarrow> env \<Rightarrow> int \<Rightarrow> int \<Rightarrow> int \<Rightarrow> int \<Rightarrow> fetch_event list \<times> attempt_result" where
  "attempt_body cfg env video_id season episode attempt =
     emit [Get video_id attempt]
       (case session_get env video_id attempt of
          Inl e \<Rightarrow> handle_exception cfg attempt e
        | Inr r \<Rightarrow>
            if handle_request_error cfg r then retry_unless_last cfg attempt 2 4 (Return None)
            else
              (case BeautifulSoup env (response_text r) of
                 Inl e \<Rightarrow> handle_exception cfg attempt e
               | Inr page \<Rightarrow>
                   emit (if attempt = MAX_RETRIES cfg - 1 \<and> SAVE_DEBUG_HTML cfg
                         then [DebugHtml video_id] else [])
                     (case extract_video_url env (VIDEO_URL_PATTERNS cfg) (response_text r) of
                        Inl e \<Rightarrow> handle_exception cfg attempt e
                      | Inr None \<Rightarrow> retry_unless_last cfg attempt 2 4 (Return None)
                      | Inr (Some video_url) \<Rightarrow>
                          if video_url = [] then retry_unless_last cfg attempt 2 4 (Return None)
                          else ([], Return (Some (video_url,
                                  create_filename season episode
                                    (extract_title page (TITLE_SELECTORS cfg))))))))"

fun attempts_loop ::
  "config \<Rightarrow> env \<Rightarrow> int \<Rightarrow> int \<Rightarrow> int \<Rightarrow> int list \<Rightarrow> fetch_event list \<times> (pystr \<times> pystr) option" where
  "attempts_loop cfg env video_id season episode [] = ([AllAttemptsFailed video_id], None)"
| "attempts_loop cfg env video_id season episode (attempt # rest) =
     (case attempt_body cfg env video_id season episode attempt of
        (evs, Return r) \<Rightarrow> (evs, r)
      | (evs, Continue) \<Rightarrow> emit evs (attempts_loop cfg env video_id season episode rest))"

definition get_video_info ::
  "config \<Rightarrow> env \<Rightarrow> int \<Rightarrow> int \<Rightarrow> int \<Rightarrow> fetch_event list \<times> (pystr \<times> pystr) option" where
  "get_video_info cfg env video_id season episode =
     attempts_loop cfg env video_id season episode [0..MAX_RETRIES cfg - 1]"


section \<open>The orchestrator (scrape_videos)\<close>

text \<open>
  What the orchestrator does that the outside can see: the call of the fetcher (with the
  fetcher's own events), the two log lines for a found and for a failed video, the
  warning of the season overflow, and the sleep between requests.
\<close>

datatype event =
    GetVideoInfo int int int "fetch_event list"
  | Found pystr
  | Failed int
  | SeasonExceeded
  | Sleep int int

text \<open>How one pass through the body of the loop over the identifiers ends.\<close>

datatype control = Next | Break | Raise exn

text \<open>\<open>xs[i]\<close> on a Python list: a negative index counts from the end.\<close>

definition py_index :: "'a list \<Rightarrow> int \<Rightarrow> exn + 'a" where
  "py_index xs i =
     (if 0 \<le> i \<and> i < int (length xs) then Inr (xs ! nat i)
      else if i < 0 \<and> - int (length xs) \<le> i then Inr (xs ! nat (int (length xs) + i))
      else Inl IndexError)"

text \<open>"Update episode and season counters": the new counters and how the loop goes on.\<close>

definition update_counters :: "config \<Rightarrow> int \<Rightarrow> int \<Rightarrow> (int \<times> int) \<times> control" where
  "update_counters cfg season episode =
     (let episode = episode + 1 in
      case py_index (SEASON_EPISODES cfg) (season - 1) of
        Inl e \<Rightarrow> ((season, episode), Raise e)
      | Inr count \<Rightarrow>
          if episode > count then
            (let episode = 1; season = season + 1 in
             if season > int (length (SEASON_EPISODES cfg)) then ((season, episode), Break)
             else ((season, episode), Next))
          else ((season, episode), Next))"

text \<open>An entry of the list \<open>videos\<close>: the dictionary appended for a found video.\<close>

record video =
  url :: pystr
  filename :: pystr
  video_id :: int
  season :: int
  episode :: int

text \<open>The local variables of \<open>scrape_videos\<close> and the events so far.\<close>

record scrape_state =
  videos :: "video list"
  st_season :: int
  st_episode :: int
  trace :: "event list"

text \<open>
  The body of \<open>for video_id in range(START_VIDEO_ID, END_VIDEO_ID + 1)\<close>: fetch, append
  or log the failure, update the counters, and sleep when the loop goes on.
\<close>

definition loop_body :: "config \<Rightarrow> env \<Rightarrow> int \<Rightarrow> scrape_state \<Rightarrow> scrape_state \<times> control" where
  "loop_body cfg env vid st =
     (let info = get_video_info cfg env vid (st_season st) (st_episode st);
          appended = (case snd info of
                        Some (video_url, fname) \<Rightarrow>
                          [\<lparr>url = video_url, filename = fname, video_id = vid,
                            season = st_season st, episode = st_episode st\<rparr>]
                      | None \<Rightarrow> []);
          logged = (case snd info of
                      Some (video_url, fname) \<Rightarrow> [Found fname]
                    | None \<Rightarrow> [Failed vid]);
          counters = update_counters cfg (st_season st) (st_episode st);
          after = (case snd counters of
                     Next \<Rightarrow> [Sleep (MIN_DELAY cfg) (MAX_DELAY cfg)]
                   | Break \<Rightarrow> [SeasonExceeded]
                   | Raise e \<Rightarrow> [])
      in (\<lparr>videos = videos st @ appended,
           st_season = fst (fst counters),
           st_episode = snd (fst counters),
           trace = trace st @ GetVideoInfo vid (st_season st) (st_episode st) (fst info) # logged @ after\<rparr>,
          snd counters))"

fun scrape_loop :: "config \<Rightarrow> env \<Rightarrow> int list \<Rightarrow> scrape_state \<Rightarrow> scrape_state \<times> exn option" where
  "scrape_loop cfg env [] st = (st, None)"
| "scrape_loop cfg env (vid # rest) st =
     (case loop_body cfg env vid st of
        (st', Next) \<Rightarrow> scrape_loop cfg env rest st'
      | (st', Break) \<Rightarrow> (st', None)
      | (st', Raise e) \<Rightarrow> (st', Some e))"

text \<open>
  \<open>scrape_videos\<close>: the final state and the exception that left the function, if any.
  Without an exception the function returns \<open>videos\<close> of the final state.
\<close>

definition scrape_videos :: "config \<Rightarrow> env \<Rightarrow> scrape_state \<times> exn option" where
  "scrape_videos cfg env =
     scrape_loop cfg env [START_VIDEO_ID cfg..END_VIDEO_ID cfg]
       \<lparr>videos = [], st_season = STARTING_SEASON cfg, st_episode = STARTING_EPISODE cfg,
        trace = []\<rparr>"

text \<open>Readings of a trace: the identifiers the fetcher was called for, the identifiers
  logged as failed, and the (identifier, season, episode) of each call.\<close>

fun attempted :: "event list \<Rightarrow> int list" where
  "attempted [] = []"
| "attempted (GetVideoInfo vid s e evs # tr) = vid # attempted tr"
| "attempted (ev # tr) = attempted tr"

fun skipped :: "event list \<Rightarrow> int list" where
  "skipped [] = []"
| "skipped (Failed vid # tr) = vid # skipped tr"
| "skipped (ev # tr) = skipped tr"

fun calls :: "event list \<Rightarrow> (int \<times> int \<times> int) list" where
  "calls [] = []"
| "calls (GetVideoInfo vid s e evs # tr) = (vid, s, e) # calls tr"
| "calls (ev # tr) = calls tr"

fun requests :: "fetch_event list \<Rightarrow> (int \<times> int) list" where
  "requests [] = []"
| "requests (Get vid attempt # evs) = (vid, attempt) # requests evs"
| "requests (ev # evs) = requests evs"


text \<open>
  The season/episode cursor on its own: the (identifier, season, episode) of each call of
  the fetcher and the exception that ends the loop, computed from the counters alone,
  without running the fetcher.
\<close>

fun cursor_walk ::
  "config \<Rightarrow> int list \<Rightarrow> int \<Rightarrow> int \<Rightarrow> (int \<times> int \<times> int) list \<times> exn option" where
  "cursor_walk cfg [] s e = ([], None)"
| "cursor_walk cfg (vid # rest) s e =
     (case update_counters cfg s e of
        ((s', e'), Next) \<Rightarrow> emit [(vid, s, e)] (cursor_walk cfg rest s' e')
      | ((s', e'), Break) \<Rightarrow> ([(vid, s, e)], None)
      | ((s', e'), Raise x) \<Rightarrow> ([(vid, s, e)], Some x))"

text \<open>How many records and how many skips a run holds for an identifier.\<close>

definition records_for :: "int \<Rightarrow> scrape_state \<Rightarrow> nat" where
  "records_for vid st = count_list (map video_id (videos st)) vid"

definition skips_for :: "int \<Rightarrow> scrape_state \<Rightarrow> nat" where
  "skips_for vid st = count_list (skipped (trace st)) vid"

text \<open>An attempt that fails in one of the ways that are retried: the GET raises (a
  timeout, a transport error), the status is not 200, the body is short, or no pattern
  yields a URL.\<close>

definition fails_retryably :: "config \<Rightarrow> env \<Rightarrow> int \<Rightarrow> int \<Rightarrow> bool" where
  "fails_retryably cfg env vid attempt =
     (case session_get env vid attempt of
        Inl e \<Rightarrow> True
      | Inr r \<Rightarrow>
          status_code r \<noteq> 200 \<or> int (length (response_text r)) < MIN_HTML_LENGTH cfg \<or>
          (case extract_video_url env (VIDEO_URL_PATTERNS cfg) (response_text r) of
             Inr (Some video_url) \<Rightarrow> video_url = []
           | _ \<Rightarrow> True))"

text \<open>Whether a selector fails in \<open>_extract_title\<close>: an exception, no element, or a
  text that is blank.\<close>

definition selector_fails :: "soup \<Rightarrow> pystr \<Rightarrow> bool" where
  "selector_fails page selector =
     (case lookup page selector of
        Inl e \<Rightarrow> True
      | Inr None \<Rightarrow> True
      | Inr (Some element_text) \<Rightarrow> strip element_text = [])"


section \<open>The link list: save_download_links and load_links\<close>

text \<open>
  Both functions open the file in text mode with \<open>encoding='utf-8'\<close>. Writing turns every
  line feed into \<open>os.linesep\<close> and raises on a code point UTF-8 cannot encode (a
  surrogate); reading turns a carriage return, with the line feed after it if there is
  one, into a line feed. The file is kept as the code points of its decoded bytes. Opening
  the file is taken to succeed, and \<open>load_links\<close> to find the file.
\<close>

datatype os = Posix | Windows

fun linesep :: "os \<Rightarrow> pystr" where
  "linesep Posix = [10]"
| "linesep Windows = [13, 10]"

definition encodable :: "nat \<Rightarrow> bool" where
  "encodable c \<longleftrightarrow> c < 55296 \<or> (57343 < c \<and> c < 1114112)"

text \<open>\<open>f.write(s)\<close>: the file after the call, or the exception.\<close>

definition f_write :: "os \<Rightarrow> pystr \<Rightarrow> pystr \<Rightarrow> exn + pystr" where
  "f_write sys content s =
     (if list_all encodable s then Inr (content @ str_replace 10 (linesep sys) s)
      else Inl Exception)"

text \<open>The translation of the line ends by \<open>f.read()\<close>.\<close>

fun universal_newlines :: "pystr \<Rightarrow> pystr" where
  "universal_newlines [] = []"
| "universal_newlines [c] = [if c = 13 then 10 else c]"
| "universal_newlines (c # d # cs) =
     (if c = 13 \<and> d = 10 then 10 # universal_newlines cs
      else if c = 13 then 10 # universal_newlines (d # cs)
      else c # universal_newlines (d # cs))"

text \<open>The loop of \<open>save_download_links\<close>. An exception of a write leaves the loop for the
  handler, which logs it; the file keeps what was written before.\<close>

fun write_videos :: "os \<Rightarrow> pystr \<Rightarrow> video list \<Rightarrow> pystr" where
  "write_videos sys content [] = content"
| "write_videos sys content (v # rest) =
     (case f_write sys content (url v @ [10]) of
        Inl e \<Rightarrow> content
      | Inr content1 \<Rightarrow>
          (case f_write sys content1 (py ''  out='' @ filename v @ [10, 10]) of
             Inl e \<Rightarrow> content1
           | Inr content2 \<Rightarrow> write_videos sys content2 rest))"

text \<open>\<open>save_download_links\<close>: the file it leaves (opening with \<open>'w'\<close> empties it).\<close>

definition save_download_links :: "os \<Rightarrow> video list \<Rightarrow> pystr" where
  "save_download_links sys vs = write_videos sys [] vs"

text \<open>The loop over the lines in \<open>load_links\<close>.\<close>

fun parse_lines ::
  "pystr list \<Rightarrow> pystr option \<Rightarrow> (pystr \<times> pystr) list \<Rightarrow> (pystr \<times> pystr) list" where
  "parse_lines [] current_url download_links = download_links"
| "parse_lines (line # rest) current_url download_links =
     (let line = strip line in
      if startswith line (py ''https://'') then parse_lines rest (Some line) download_links
      else (case current_url of
              Some u \<Rightarrow>
                if startswith line (py ''out='') \<and> u \<noteq> []
                then parse_lines rest None (download_links @ [(u, drop 4 line)])
                else parse_lines rest current_url download_links
            | None \<Rightarrow> parse_lines rest current_url download_links))"

text \<open>\<open>load_links\<close> on a file that exists: the (url, filename) pairs in \<open>download_links\<close>,
  which is empty before the call.\<close>

definition load_links :: "pystr \<Rightarrow> (pystr \<times> pystr) list" where
  "load_links file = parse_lines (split_on 10 (strip (universal_newlines file))) None []"

text \<open>A string that survives a line of the link list: no line break, nothing UTF-8
  cannot encode, and no whitespace at its end.\<close>

definition line_safe :: "pystr \<Rightarrow> bool" where
  "line_safe s \<longleftrightarrow>
     10 \<notin> set s \<and> 13 \<notin> set s \<and> list_all encodable s \<and> (s = [] \<or> \<not> isspace (last s))"


text \<open>The text written for one video without the two line feeds that end it, the text
  written for a list of videos, and the lines that text consists of.\<close>

definition link_text :: "video \<Rightarrow> pystr" where
  "link_text v = url v @ [10] @ py ''  out='' @ filename v"

definition link_lines :: "video list \<Rightarrow> pystr list" where
  "link_lines vs = concat (map (\<lambda>v. [url v, py ''  out='' @ filename v, []]) vs)"

definition blocks :: "video list \<Rightarrow> pystr" where
  "blocks vs = concat (map (\<lambda>v. link_text v @ [10, 10]) vs)"


section \<open>Example inputs\<close>

text \<open>
  A page whose \<open>h1\<close> element holds a title, an HTTP session that answers identifier 101
  with a short body and every other identifier with that page, a pattern list of which
  only the second pattern matches, and a small configuration. They are the concrete
  inputs at which the theorems below are instantiated.
\<close>

definition demo_page :: soup where
  "demo_page =
     \<lparr>soup_select_one = (\<lambda>selector. Inr None),
      soup_find = (\<lambda>selector. if selector = py ''h1'' then Inr (Some (py '' Demo '')) else Inr None)\<rparr>"

definition demo_env :: env where
  "demo_env =
     \<lparr>session_get = (\<lambda>vid attempt.
        if vid = 101 then Inr \<lparr>status_code = 200, response_text = py ''abc''\<rparr>
        else Inr \<lparr>status_code = 200, response_text = py ''<h1> Demo </h1>''\<rparr>),
      re_finditer = (\<lambda>pattern html_content.
        if pattern = py ''B''
        then Inr [\<lparr>matched = py ''http://x/y.mp4'', captures = []\<rparr>,
                  \<lparr>matched = py ''http://x/z.mp4'', captures = []\<rparr>]
        else Inr []),
      BeautifulSoup = (\<lambda>html_content. Inr demo_page)\<rparr>"

definition demo_config :: config where
  "demo_config =
     \<lparr>START_VIDEO_ID = 100, END_VIDEO_ID = 102, SEASON_EPISODES = [2, 3],
      STARTING_SEASON = 1, STARTING_EPISODE = 1, MIN_DELAY = 3, MAX_DELAY = 7,
      MAX_RETRIES = 3, VIDEO_URL_PATTERNS = [py ''A'', py ''B''],
      TITLE_SELECTORS = [py ''.title'', py ''h1''], SAVE_DEBUG_HTML = False,
      MIN_HTML_LENGTH = 4\<rparr>"

definition blank_page :: soup where
  "blank_page = \<lparr>soup_select_one = (\<lambda>selector. Inr None), soup_find = (\<lambda>selector. Inl Exception)\<rparr>"

text \<open>The same session with a second pattern of two capture groups, one around the part
  before the extension and one around the extension: its one match has the text of the
  whole URL and the texts of the two groups.\<close>

definition grouped_env :: env where
  "grouped_env =
     demo_env\<lparr>re_finditer := (\<lambda>pattern html_content.
        if pattern = py ''B''
        then Inr [\<lparr>matched = py ''http://x/y.mp4'', captures = [py ''http://x/y'', py ''.mp4'']\<rparr>]
        else Inr [])\<rparr>"

definition untitled_env :: env where
  "untitled_env = demo_env\<lparr>BeautifulSoup := (\<lambda>html_content. Inr blank_page)\<rparr>"

definition demo_video :: video where
  "demo_video = \<lparr>url = py ''https://x/a.mp4'', filename = py ''S01-E01-Demo.mp4'',
                  video_id = 100, season = 1, episode = 1\<rparr>"

definition trailing_space_video :: video where
  "trailing_space_video = \<lparr>url = py ''https://x/a.mp4'', filename = py ''a.mp4 '',
                  video_id = 100, season = 1, episode = 1\<rparr>"


section \<open>Facts about the string functions\<close>

declare digits.simps [simp del]

subsection \<open>Sanitization is idempotent\<close>

lemma replace_single: "str_replace old [n] s = map (\<lambda>c. if c = old then n else c) s"
  by (induction s) (simp_all add: str_replace_def)

lemma replace_table:
  "fold (\<lambda>(char, replacement) f. str_replace char replacement f) FILENAME_REPLACE_CHARS s
     = map (\<lambda>c. if unsafe c then 95 else c) s"
proof -
  have "py ''_'' = [95]" by (simp add: py_def)
  then show ?thesis
    unfolding FILENAME_REPLACE_CHARS_def
    by (simp add: replace_single unsafe_def)
qed

lemma split_words_mem:
  "w \<in> set (split_words cur s) \<Longrightarrow> \<forall>c \<in> set cur. \<not> isspace c \<Longrightarrow>
     w \<noteq> [] \<and> (\<forall>c \<in> set w. \<not> isspace c) \<and> set w \<subseteq> set cur \<union> set s"
proof (induction s arbitrary: cur)
  case Nil
  then show ?case by (simp split: if_splits)
next
  case (Cons c cs)
  show ?case
  proof (cases "isspace c")
    case True
    with Cons.prems have "w = cur \<and> cur \<noteq> [] \<or> w \<in> set (split_words [] cs)"
      by (simp split: if_splits)
    then show ?thesis
    proof
      assume "w = cur \<and> cur \<noteq> []"
      with Cons.prems(2) show ?thesis by auto
    next
      assume "w \<in> set (split_words [] cs)"
      from Cons.IH[OF this] show ?thesis by auto
    qed
  next
    case False
    with Cons.prems have m: "w \<in> set (split_words (cur @ [c]) cs)" by simp
    from False Cons.prems(2) have "\<forall>x \<in> set (cur @ [c]). \<not> isspace x" by simp
    from Cons.IH[OF m this] show ?thesis by auto
  qed
qed

lemma str_split_mem:
  "w \<in> set (str_split s) \<Longrightarrow> w \<noteq> [] \<and> (\<forall>c \<in> set w. \<not> isspace c) \<and> set w \<subseteq> set s"
  using split_words_mem[of w "[]" s] by (simp add: str_split_def)

lemma split_words_append:
  "\<forall>c \<in> set w. \<not> isspace c \<Longrightarrow> split_words cur (w @ rest) = split_words (cur @ w) rest"
  by (induction w arbitrary: cur) simp_all

lemma split_join:
  "\<forall>w \<in> set ws. w \<noteq> [] \<and> (\<forall>c \<in> set w. \<not> isspace c) \<Longrightarrow> str_split (str_join [32] ws) = ws"
proof (induction ws rule: induct_list012)
  case 1
  show ?case by (simp add: str_split_def)
next
  case (2 w)
  then have "split_words [] (w @ []) = split_words ([] @ w) []"
    by (intro split_words_append) simp
  with 2 show ?case by (simp add: str_split_def)
next
  case (3 w v ws)
  then have a: "\<forall>c \<in> set w. \<not> isspace c" and b: "w \<noteq> []" by simp_all
  have "split_words [] (w @ 32 # str_join [32] (v # ws))
          = split_words ([] @ w) (32 # str_join [32] (v # ws))"
    using a by (rule split_words_append)
  also have "\<dots> = w # split_words [] (str_join [32] (v # ws))"
    using b by (simp add: isspace_def)
  also have "split_words [] (str_join [32] (v # ws)) = v # ws"
    using 3 by (simp add: str_split_def)
  finally show ?case by (simp add: str_split_def)
qed

lemma join_set: "set (str_join sep ws) \<subseteq> set sep \<union> \<Union> (set ` set ws)"
  by (induction sep ws rule: str_join.induct) auto

lemma sanitize_filename_eq:
  "sanitize_filename s = str_join [32] (str_split (map (\<lambda>c. if unsafe c then 95 else c) s))"
  by (simp add: sanitize_filename_def replace_table py_def)

lemma sanitize_filename_safe: "c \<in> set (sanitize_filename s) \<Longrightarrow> \<not> unsafe c"
proof -
  assume "c \<in> set (sanitize_filename s)"
  then have "c = 32 \<or> (\<exists>w \<in> set (str_split (map (\<lambda>c. if unsafe c then 95 else c) s)). c \<in> set w)"
    using join_set[of "[32]" "str_split (map (\<lambda>c. if unsafe c then 95 else c) s)"]
    by (auto simp: sanitize_filename_eq)
  then show ?thesis
  proof
    assume "c = 32"
    then show ?thesis by (simp add: unsafe_def)
  next
    assume "\<exists>w \<in> set (str_split (map (\<lambda>c. if unsafe c then 95 else c) s)). c \<in> set w"
    then obtain w where "w \<in> set (str_split (map (\<lambda>c. if unsafe c then 95 else c) s))" "c \<in> set w"
      by blast
    then have "c \<in> set (map (\<lambda>c. if unsafe c then 95 else c) s)"
      using str_split_mem by blast
    then show ?thesis by (auto simp: unsafe_def split: if_splits)
  qed
qed

lemma map_unsafe_id: "\<forall>c \<in> set s. \<not> unsafe c \<Longrightarrow> map (\<lambda>c. if unsafe c then 95 else c) s = s"
  by (induction s) simp_all

text \<open>
  Claim C5. Filename sanitization is idempotent: for every string \<open>s\<close>, sanitizing the
  sanitized string gives the sanitized string again. Sanitizing replaces each character
  of \<open>FILENAME_REPLACE_CHARS\<close> by an underscore, then joins the whitespace-separated words
  by single spaces (which also trims the ends).
\<close>

theorem sanitize_filename_idempotent:
  "sanitize_filename (sanitize_filename s) = sanitize_filename s"
proof -
  let ?ws = "str_split (map (\<lambda>c. if unsafe c then 95 else c) s)"
  have safe: "\<forall>c \<in> set (sanitize_filename s). \<not> unsafe c"
    using sanitize_filename_safe by blast
  have "sanitize_filename (sanitize_filename s) = str_join [32] (str_split (sanitize_filename s))"
    by (simp add: sanitize_filename_eq[of "sanitize_filename s"] map_unsafe_id[OF safe])
  also have "str_split (sanitize_filename s) = ?ws"
    unfolding sanitize_filename_eq[of s]
    by (rule split_join) (use str_split_mem in blast)
  finally show ?thesis by (simp add: sanitize_filename_eq[of s])
qed


section \<open>The orchestrator loop\<close>

lemma attempted_append: "attempted (a @ b) = attempted a @ attempted b"
  by (induction a rule: attempted.induct) simp_all

lemma skipped_append: "skipped (a @ b) = skipped a @ skipped b"
  by (induction a rule: skipped.induct) simp_all

lemma calls_append: "calls (a @ b) = calls a @ calls b"
  by (induction a rule: calls.induct) simp_all

lemma loop_body_control:
  "snd (loop_body cfg env vid st) = snd (update_counters cfg (st_season st) (st_episode st))"
  by (simp add: loop_body_def Let_def)

lemma loop_body_counters:
  "(st_season (fst (loop_body cfg env vid st)), st_episode (fst (loop_body cfg env vid st)))
     = fst (update_counters cfg (st_season st) (st_episode st))"
  by (simp add: loop_body_def Let_def)

lemma loop_body_calls:
  "calls (trace (fst (loop_body cfg env vid st)))
     = calls (trace st) @ [(vid, st_season st, st_episode st)]"
  by (simp add: loop_body_def Let_def calls_append split: option.splits control.splits)

lemma loop_body_attempted:
  "attempted (trace (fst (loop_body cfg env vid st))) = attempted (trace st) @ [vid]"
  by (simp add: loop_body_def Let_def attempted_append split: option.splits control.splits)

lemma loop_body_videos:
  "videos (fst (loop_body cfg env vid st))
     = videos st @ (case snd (get_video_info cfg env vid (st_season st) (st_episode st)) of
                      Some (video_url, fname) \<Rightarrow>
                        [\<lparr>url = video_url, filename = fname, video_id = vid,
                          season = st_season st, episode = st_episode st\<rparr>]
                    | None \<Rightarrow> [])"
  by (simp add: loop_body_def Let_def)

lemma loop_body_skipped:
  "skipped (trace (fst (loop_body cfg env vid st)))
     = skipped (trace st) @ (case snd (get_video_info cfg env vid (st_season st) (st_episode st)) of
                               Some r \<Rightarrow> [] | None \<Rightarrow> [vid])"
  by (simp add: loop_body_def Let_def skipped_append split: option.splits control.splits)

lemma loop_body_outcome:
  "records_for v (fst (loop_body cfg env vid st)) + skips_for v (fst (loop_body cfg env vid st))
     = records_for v st + skips_for v st + (if v = vid then 1 else 0)"
  by (simp add: records_for_def skips_for_def loop_body_videos loop_body_skipped
           split: option.splits)

lemma loop_body_break:
  "snd (loop_body cfg env vid st) = Break \<Longrightarrow> SeasonExceeded \<in> set (trace (fst (loop_body cfg env vid st)))"
  by (simp add: loop_body_def Let_def)

lemma scrape_loop_cursor:
  "calls (trace (fst (scrape_loop cfg env ids st)))
     = calls (trace st) @ fst (cursor_walk cfg ids (st_season st) (st_episode st))
   \<and> snd (scrape_loop cfg env ids st) = snd (cursor_walk cfg ids (st_season st) (st_episode st))"
proof (induction ids arbitrary: st)
  case Nil
  show ?case by simp
next
  case (Cons vid rest)
  obtain st' c where lb: "loop_body cfg env vid st = (st', c)" by (cases "loop_body cfg env vid st")
  obtain s' e' c' where uc: "update_counters cfg (st_season st) (st_episode st) = ((s', e'), c')"
    by (cases "update_counters cfg (st_season st) (st_episode st)") auto
  from lb uc loop_body_control[of cfg env vid st] have c: "c' = c" by simp
  from lb uc loop_body_counters[of cfg env vid st] have se: "st_season st' = s'" "st_episode st' = e'"
    by simp_all
  from lb loop_body_calls[of cfg env vid st]
  have cl: "calls (trace st') = calls (trace st) @ [(vid, st_season st, st_episode st)]" by simp
  show ?case
  proof (cases c)
    case Next
    with lb uc c se cl Cons.IH[of st'] show ?thesis by (simp add: emit_def)
  next
    case Break
    with lb uc c se cl show ?thesis by simp
  next
    case (Raise x)
    with lb uc c se cl show ?thesis by simp
  qed
qed

lemma scrape_loop_outcome:
  "\<exists>att. prefix att ids
     \<and> attempted (trace (fst (scrape_loop cfg env ids st))) = attempted (trace st) @ att
     \<and> (\<forall>v. records_for v (fst (scrape_loop cfg env ids st)) + skips_for v (fst (scrape_loop cfg env ids st))
            = records_for v st + skips_for v st + count_list att v)
     \<and> (att = ids \<or> snd (scrape_loop cfg env ids st) \<noteq> None
          \<or> SeasonExceeded \<in> set (trace (fst (scrape_loop cfg env ids st))))"
proof (induction ids arbitrary: st)
  case Nil
  show ?case by simp
next
  case (Cons vid rest)
  obtain st' c where lb: "loop_body cfg env vid st = (st', c)" by (cases "loop_body cfg env vid st")
  from lb loop_body_attempted[of cfg env vid st]
  have at: "attempted (trace st') = attempted (trace st) @ [vid]" by simp
  from lb loop_body_outcome[of _ cfg env vid st]
  have oc: "\<And>v. records_for v st' + skips_for v st' = records_for v st + skips_for v st + (if v = vid then 1 else 0)"
    by simp
  show ?case
  proof (cases c)
    case Next
    from Cons.IH[of st'] obtain att where
      a1: "prefix att rest" and
      a2: "attempted (trace (fst (scrape_loop cfg env rest st'))) = attempted (trace st') @ att" and
      a3: "\<And>v. records_for v (fst (scrape_loop cfg env rest st')) + skips_for v (fst (scrape_loop cfg env rest st'))
            = records_for v st' + skips_for v st' + count_list att v" and
      a4: "att = rest \<or> snd (scrape_loop cfg env rest st') \<noteq> None
          \<or> SeasonExceeded \<in> set (trace (fst (scrape_loop cfg env rest st')))"
      by blast
    have eq: "scrape_loop cfg env (vid # rest) st = scrape_loop cfg env rest st'"
      using lb Next by simp
    show ?thesis
      unfolding eq
    proof (intro exI[of _ "vid # att"] conjI allI)
      show "prefix (vid # att) (vid # rest)" using a1 by simp
      show "attempted (trace (fst (scrape_loop cfg env rest st'))) = attempted (trace st) @ vid # att"
        using a2 at by simp
      show "records_for v (fst (scrape_loop cfg env rest st')) + skips_for v (fst (scrape_loop cfg env rest st'))
            = records_for v st + skips_for v st + count_list (vid # att) v" for v
        using a3[of v] oc[of v] by simp
      show "vid # att = vid # rest \<or> snd (scrape_loop cfg env rest st') \<noteq> None
          \<or> SeasonExceeded \<in> set (trace (fst (scrape_loop cfg env rest st')))"
        using a4 by simp
    qed
  next
    case Break
    have eq: "scrape_loop cfg env (vid # rest) st = (st', None)"
      using lb Break by simp
    have "SeasonExceeded \<in> set (trace st')"
      using loop_body_break[of cfg env vid st] lb Break by simp
    then show ?thesis
      unfolding eq using at oc by (intro exI[of _ "[vid]"]) simp
  next
    case (Raise x)
    have eq: "scrape_loop cfg env (vid # rest) st = (st', Some x)"
      using lb Raise by simp
    show ?thesis
      unfolding eq using at oc by (intro exI[of _ "[vid]"]) simp
  qed
qed

lemma count_list_distinct: "distinct xs \<Longrightarrow> count_list xs v = (if v \<in> set xs then 1 else 0)"
  by (induction xs) auto

lemma prefix_distinct: "prefix xs ys \<Longrightarrow> distinct ys \<Longrightarrow> distinct xs"
  by (auto simp: prefix_def)

text \<open>
  Claim C1, as the code has it. The identifiers the fetcher is called for are an initial
  segment of the range from \<open>START_VIDEO_ID\<close> to \<open>END_VIDEO_ID\<close>. Each of them has exactly
  one record in \<open>videos\<close> or exactly one logged failure, never both and never neither; an
  identifier outside the segment has neither. When the segment is not the whole range,
  the run was cut short: the warning of the season overflow is in the trace, or an
  exception left the function.
\<close>

theorem scrape_videos_one_outcome_per_attempted_id:
  "prefix (attempted (trace (fst (scrape_videos cfg env)))) [START_VIDEO_ID cfg..END_VIDEO_ID cfg]
   \<and> (\<forall>vid. records_for vid (fst (scrape_videos cfg env)) + skips_for vid (fst (scrape_videos cfg env))
             = (if vid \<in> set (attempted (trace (fst (scrape_videos cfg env)))) then 1 else 0))
   \<and> (attempted (trace (fst (scrape_videos cfg env))) \<noteq> [START_VIDEO_ID cfg..END_VIDEO_ID cfg]
        \<longrightarrow> snd (scrape_videos cfg env) \<noteq> None
            \<or> SeasonExceeded \<in> set (trace (fst (scrape_videos cfg env))))"
proof -
  let ?ids = "[START_VIDEO_ID cfg..END_VIDEO_ID cfg]"
  let ?st0 = "\<lparr>videos = [], st_season = STARTING_SEASON cfg, st_episode = STARTING_EPISODE cfg, trace = []\<rparr>"
  let ?r = "scrape_loop cfg env ?ids ?st0"
  from scrape_loop_outcome[of ?ids cfg env ?st0] obtain att where
    a1: "prefix att ?ids" and
    a2: "attempted (trace (fst ?r)) = att" and
    a3: "\<And>v. records_for v (fst ?r) + skips_for v (fst ?r) = count_list att v" and
    a4: "att = ?ids \<or> snd ?r \<noteq> None \<or> SeasonExceeded \<in> set (trace (fst ?r))"
    by (auto simp: records_for_def skips_for_def)
  have d: "distinct att" using a1 prefix_distinct by fastforce
  show ?thesis
    unfolding scrape_videos_def
    using a1 a2 a3 a4 count_list_distinct[OF d] by auto
qed

section \<open>The retry loop\<close>

lemma requests_append: "requests (a @ b) = requests a @ requests b"
  by (induction a rule: requests.induct) simp_all

lemma retry_unless_last_requests: "requests (fst (retry_unless_last cfg k lo hi x)) = []"
  by (simp add: retry_unless_last_def)

lemma handle_exception_requests: "requests (fst (handle_exception cfg k e)) = []"
  by (simp add: handle_exception_def retry_unless_last_requests split: exn.splits)

lemma handle_exception_result: "snd (handle_exception cfg k e) = Continue"
  by (simp add: handle_exception_def retry_unless_last_def split: exn.splits)

lemma retry_unless_last_result:
  "snd (retry_unless_last cfg k lo hi x) = (if k < MAX_RETRIES cfg - 1 then Continue else x)"
  by (simp add: retry_unless_last_def)

lemma attempt_body_requests:
  "requests (fst (attempt_body cfg env vid s e k)) = [(vid, k)]"
  by (simp add: attempt_body_def emit_def requests_append retry_unless_last_requests
        handle_exception_requests split: sum.splits option.splits)

lemma attempt_body_success:
  assumes "session_get env vid k = Inr r" and "\<not> handle_request_error cfg r"
    and "BeautifulSoup env (response_text r) = Inr page"
    and "extract_video_url env (VIDEO_URL_PATTERNS cfg) (response_text r) = Inr (Some u)"
    and "u \<noteq> []"
  shows "snd (attempt_body cfg env vid s e k)
           = Return (Some (u, create_filename s e (extract_title page (TITLE_SELECTORS cfg))))"
  using assms by (simp add: attempt_body_def emit_def)

lemma attempt_body_result:
  assumes "snd (attempt_body cfg env vid s e k) = Return (Some (u, f))"
  shows "u \<noteq> [] \<and> (\<exists>page. f = create_filename s e (extract_title page (TITLE_SELECTORS cfg)))"
  using assms
  by (auto simp: attempt_body_def emit_def handle_exception_result retry_unless_last_result
           split: sum.splits option.splits if_splits)

lemma attempt_body_fails:
  assumes "fails_retryably cfg env vid k"
  shows "snd (attempt_body cfg env vid s e k)
           = (if k < MAX_RETRIES cfg - 1 then Continue else Return None)
         \<or> snd (attempt_body cfg env vid s e k) = Continue"
  using assms
  by (auto simp: attempt_body_def emit_def fails_retryably_def handle_exception_result
                 retry_unless_last_result handle_request_error_def is_page_loaded_def
           split: sum.splits option.splits if_splits)

lemma attempts_loop_all_fail:
  assumes "\<forall>k \<in> set ks. fails_retryably cfg env vid k"
    and "\<forall>k \<in> set (butlast ks). k < MAX_RETRIES cfg - 1"
  shows "snd (attempts_loop cfg env vid s e ks) = None
         \<and> requests (fst (attempts_loop cfg env vid s e ks)) = map (\<lambda>k. (vid, k)) ks"
  using assms
proof (induction ks)
  case Nil
  show ?case by simp
next
  case (Cons k rest)
  obtain evs r where ab: "attempt_body cfg env vid s e k = (evs, r)"
    by (cases "attempt_body cfg env vid s e k")
  from ab attempt_body_requests[of cfg env vid s e k] have rq: "requests evs = [(vid, k)]" by simp
  from Cons.prems(1) have "fails_retryably cfg env vid k" by simp
  from attempt_body_fails[OF this, of s e] ab
  have res: "r = (if k < MAX_RETRIES cfg - 1 then Continue else Return None) \<or> r = Continue" by simp
  show ?case
  proof (cases rest)
    case Nil
    with ab rq res show ?thesis by (auto simp: emit_def requests_append split: if_splits)
  next
    case (Cons k' rest')
    with Cons.prems(2) have "k < MAX_RETRIES cfg - 1" by simp
    with res have r: "r = Continue" by auto
    from Cons.prems Cons have "\<forall>k \<in> set rest. fails_retryably cfg env vid k"
      and "\<forall>k \<in> set (butlast rest). k < MAX_RETRIES cfg - 1" by auto
    from Cons.IH[OF this] ab r rq show ?thesis by (simp add: emit_def requests_append)
  qed
qed

lemma butlast_upto: "k \<in> set (butlast [0..m - 1]) \<Longrightarrow> k < m - 1"
proof (cases "0 \<le> m - 1")
  case True
  assume k: "k \<in> set (butlast [0..m - 1])"
  from True have "[0..m - 1] = [0..m - 1 - 1] @ [m - 1]" by (rule upto_rec2)
  with k have "k \<in> set [0..m - 1 - 1]" by simp
  then show ?thesis by simp
next
  case False
  assume "k \<in> set (butlast [0..m - 1])"
  with False show ?thesis by simp
qed

lemma get_video_info_all_fail:
  assumes "\<forall>k. 0 \<le> k \<and> k < MAX_RETRIES cfg \<longrightarrow> fails_retryably cfg env vid k"
  shows "snd (get_video_info cfg env vid s e) = None"
    and "requests (fst (get_video_info cfg env vid s e)) = map (\<lambda>k. (vid, k)) [0..MAX_RETRIES cfg - 1]"
proof -
  have a: "\<forall>k \<in> set [0..MAX_RETRIES cfg - 1]. fails_retryably cfg env vid k"
    using assms by simp
  have b: "\<forall>k \<in> set (butlast [0..MAX_RETRIES cfg - 1]). k < MAX_RETRIES cfg - 1"
    using butlast_upto by blast
  from attempts_loop_all_fail[OF a b, of s e]
  show "snd (get_video_info cfg env vid s e) = None"
    and "requests (fst (get_video_info cfg env vid s e)) = map (\<lambda>k. (vid, k)) [0..MAX_RETRIES cfg - 1]"
    by (simp_all add: get_video_info_def)
qed

lemma attempts_loop_result:
  "snd (attempts_loop cfg env vid s e ks) = Some (u, f) \<Longrightarrow>
     u \<noteq> [] \<and> (\<exists>page. f = create_filename s e (extract_title page (TITLE_SELECTORS cfg)))"
proof (induction ks)
  case Nil
  then show ?case by simp
next
  case (Cons k rest)
  obtain evs r where ab: "attempt_body cfg env vid s e k = (evs, r)"
    by (cases "attempt_body cfg env vid s e k")
  show ?case
  proof (cases r)
    case (Return x)
    with ab Cons.prems have "snd (attempt_body cfg env vid s e k) = Return (Some (u, f))" by simp
    then show ?thesis by (rule attempt_body_result)
  next
    case Continue
    with ab Cons.prems have "snd (attempts_loop cfg env vid s e rest) = Some (u, f)"
      by (simp add: emit_def)
    then show ?thesis by (rule Cons.IH)
  qed
qed

lemma get_video_info_first_attempt:
  assumes "0 < MAX_RETRIES cfg" and "snd (attempt_body cfg env vid s e 0) = Return r"
  shows "snd (get_video_info cfg env vid s e) = r"
proof -
  from assms(1) have "[0..MAX_RETRIES cfg - 1] = 0 # [0 + 1..MAX_RETRIES cfg - 1]"
    by (intro upto_rec1) simp
  with assms(2) show ?thesis
    by (cases "attempt_body cfg env vid s e 0") (simp add: get_video_info_def)
qed

section \<open>The season and episode counters\<close>

lemma attempted_calls: "attempted tr = map fst (calls tr)"
  by (induction tr rule: attempted.induct) simp_all

lemma scrape_videos_calls:
  "calls (trace (fst (scrape_videos cfg env)))
     = fst (cursor_walk cfg [START_VIDEO_ID cfg..END_VIDEO_ID cfg] (STARTING_SEASON cfg) (STARTING_EPISODE cfg))"
  using scrape_loop_cursor[of cfg env "[START_VIDEO_ID cfg..END_VIDEO_ID cfg]"
      "\<lparr>videos = [], st_season = STARTING_SEASON cfg, st_episode = STARTING_EPISODE cfg, trace = []\<rparr>"]
  by (simp add: scrape_videos_def)

lemma scrape_videos_raised:
  "snd (scrape_videos cfg env)
     = snd (cursor_walk cfg [START_VIDEO_ID cfg..END_VIDEO_ID cfg] (STARTING_SEASON cfg) (STARTING_EPISODE cfg))"
  using scrape_loop_cursor[of cfg env "[START_VIDEO_ID cfg..END_VIDEO_ID cfg]"
      "\<lparr>videos = [], st_season = STARTING_SEASON cfg, st_episode = STARTING_EPISODE cfg, trace = []\<rparr>"]
  by (simp add: scrape_videos_def)

lemma update_counters_in_bounds:
  assumes "1 \<le> s" and "s \<le> int (length (SEASON_EPISODES cfg))"
    and "update_counters cfg s e = ((s', e'), c)"
  shows "c \<noteq> Raise x" and "c = Next \<Longrightarrow> 1 \<le> s' \<and> s' \<le> int (length (SEASON_EPISODES cfg))"
  using assms
  by (auto simp: update_counters_def py_index_def Let_def split: if_splits)

lemma update_counters_out_of_bounds:
  assumes "int (length (SEASON_EPISODES cfg)) < s"
  shows "snd (update_counters cfg s e) = Raise IndexError"
  using assms by (simp add: update_counters_def py_index_def Let_def)

lemma cursor_walk_in_bounds:
  assumes "1 \<le> s" and "s \<le> int (length (SEASON_EPISODES cfg))"
  shows "snd (cursor_walk cfg ids s e) = None
         \<and> (\<forall>(vid, s', e') \<in> set (fst (cursor_walk cfg ids s e)).
               1 \<le> s' \<and> s' \<le> int (length (SEASON_EPISODES cfg)))"
  using assms
proof (induction ids arbitrary: s e)
  case Nil
  show ?case by simp
next
  case (Cons vid rest)
  obtain s' e' c where uc: "update_counters cfg s e = ((s', e'), c)"
    by (cases "update_counters cfg s e") auto
  show ?case
  proof (cases c)
    case Next
    from update_counters_in_bounds(2)[OF Cons.prems uc Next]
    have "1 \<le> s'" and "s' \<le> int (length (SEASON_EPISODES cfg))" by simp_all
    from Cons.IH[OF this] uc Next Cons.prems show ?thesis by (simp add: emit_def)
  next
    case Break
    with uc Cons.prems show ?thesis by simp
  next
    case (Raise x)
    with update_counters_in_bounds(1)[OF Cons.prems uc, of x] show ?thesis by simp
  qed
qed

lemma cursor_walk_out_of_bounds:
  assumes "int (length (SEASON_EPISODES cfg)) < s"
  shows "cursor_walk cfg (vid # rest) s e = ([(vid, s, e)], Some IndexError)"
  using update_counters_out_of_bounds[OF assms, of e]
  by (cases "update_counters cfg s e") auto

text \<open>
  Claim C10. When \<open>1 \<le> STARTING_SEASON \<le> len(SEASON_EPISODES)\<close>, no run raises: in every
  pass of the loop the season that indexes \<open>SEASON_EPISODES[season - 1]\<close> lies between 1 and
  the length of the table. When \<open>STARTING_SEASON\<close> exceeds the length of the table and the
  range is not empty, the first update of the counters raises \<open>IndexError\<close>, after the one
  call of the fetcher for \<open>START_VIDEO_ID\<close>.
\<close>

theorem season_table_access:
  "(1 \<le> STARTING_SEASON cfg \<and> STARTING_SEASON cfg \<le> int (length (SEASON_EPISODES cfg)) \<longrightarrow>
      snd (scrape_videos cfg env) = None
      \<and> (\<forall>(vid, s, e) \<in> set (calls (trace (fst (scrape_videos cfg env)))).
            1 \<le> s \<and> s \<le> int (length (SEASON_EPISODES cfg))))
   \<and> (int (length (SEASON_EPISODES cfg)) < STARTING_SEASON cfg
        \<and> START_VIDEO_ID cfg \<le> END_VIDEO_ID cfg \<longrightarrow>
      snd (scrape_videos cfg env) = Some IndexError
      \<and> calls (trace (fst (scrape_videos cfg env)))
          = [(START_VIDEO_ID cfg, STARTING_SEASON cfg, STARTING_EPISODE cfg)])"
proof (intro conjI impI)
  assume a: "1 \<le> STARTING_SEASON cfg \<and> STARTING_SEASON cfg \<le> int (length (SEASON_EPISODES cfg))"
  then have "1 \<le> STARTING_SEASON cfg" "STARTING_SEASON cfg \<le> int (length (SEASON_EPISODES cfg))"
    by simp_all
  from cursor_walk_in_bounds[OF this]
  show "snd (scrape_videos cfg env) = None"
    and "\<forall>(vid, s, e) \<in> set (calls (trace (fst (scrape_videos cfg env)))).
            1 \<le> s \<and> s \<le> int (length (SEASON_EPISODES cfg))"
    by (simp_all add: scrape_videos_calls scrape_videos_raised)
next
  assume b: "int (length (SEASON_EPISODES cfg)) < STARTING_SEASON cfg
        \<and> START_VIDEO_ID cfg \<le> END_VIDEO_ID cfg"
  then have ids: "[START_VIDEO_ID cfg..END_VIDEO_ID cfg]
      = START_VIDEO_ID cfg # [START_VIDEO_ID cfg + 1..END_VIDEO_ID cfg]"
    by (intro upto_rec1) simp
  from b have "int (length (SEASON_EPISODES cfg)) < STARTING_SEASON cfg" by simp
  from cursor_walk_out_of_bounds[OF this]
  show "snd (scrape_videos cfg env) = Some IndexError"
    and "calls (trace (fst (scrape_videos cfg env)))
          = [(START_VIDEO_ID cfg, STARTING_SEASON cfg, STARTING_EPISODE cfg)]"
    by (simp_all add: scrape_videos_calls scrape_videos_raised ids)
qed

lemma update_counters_2_3:
  assumes "SEASON_EPISODES cfg = [2, 3]"
  shows "update_counters cfg 1 1 = ((1, 2), Next)"
    and "update_counters cfg 1 2 = ((2, 1), Next)"
    and "update_counters cfg 2 1 = ((2, 2), Next)"
    and "update_counters cfg 2 2 = ((2, 3), Next)"
    and "update_counters cfg 2 3 = ((3, 1), Break)"
  using assms by (simp_all add: update_counters_def py_index_def Let_def)

lemma upto_five:
  assumes "a + 4 \<le> (b::int)"
  shows "[a..b] = a # (a + 1) # (a + 2) # (a + 3) # (a + 4) # [a + 5..b]"
proof -
  have 1: "[a..b] = a # [a + 1..b]" using assms by (intro upto_rec1) simp
  have 2: "[a + 1..b] = (a + 1) # [a + 2..b]" using assms upto_rec1[of "a + 1" b] by (simp add: add.commute)
  have 3: "[a + 2..b] = (a + 2) # [a + 3..b]" using assms upto_rec1[of "a + 2" b] by (simp add: add.commute)
  have 4: "[a + 3..b] = (a + 3) # [a + 4..b]" using assms upto_rec1[of "a + 3" b] by (simp add: add.commute)
  have 5: "[a + 4..b] = (a + 4) # [a + 5..b]" using assms upto_rec1[of "a + 4" b] by (simp add: add.commute)
  show ?thesis by (simp only: 1 2 3 4 5)
qed

text \<open>
  Claim C2. The (identifier, season, episode) triples of the calls of the fetcher do not
  depend on what the fetcher meets: the counters advance after a success and after a
  failure alike. With \<open>SEASON_EPISODES = [2, 3]\<close> the update of the counters takes (1,1) to
  (1,2), (2,1), (2,2), (2,3), and the update at (2,3) leaves the table and breaks the loop;
  a run from (1,1) over at least five identifiers calls the fetcher for the first five, at
  exactly these positions, and returns.
\<close>

theorem cursor_rollover:
  "calls (trace (fst (scrape_videos cfg env))) = calls (trace (fst (scrape_videos cfg env')))
   \<and> (SEASON_EPISODES cfg = [2, 3] \<longrightarrow>
        update_counters cfg 1 1 = ((1, 2), Next) \<and> update_counters cfg 1 2 = ((2, 1), Next) \<and>
        update_counters cfg 2 1 = ((2, 2), Next) \<and> update_counters cfg 2 2 = ((2, 3), Next) \<and>
        update_counters cfg 2 3 = ((3, 1), Break))
   \<and> (SEASON_EPISODES cfg = [2, 3] \<and> STARTING_SEASON cfg = 1 \<and> STARTING_EPISODE cfg = 1
        \<and> START_VIDEO_ID cfg = a \<and> a + 4 \<le> END_VIDEO_ID cfg \<longrightarrow>
        calls (trace (fst (scrape_videos cfg env)))
          = [(a, 1, 1), (a + 1, 1, 2), (a + 2, 2, 1), (a + 3, 2, 2), (a + 4, 2, 3)]
        \<and> snd (scrape_videos cfg env) = None)"
proof (intro conjI impI)
  show "calls (trace (fst (scrape_videos cfg env))) = calls (trace (fst (scrape_videos cfg env')))"
    by (simp add: scrape_videos_calls)
next
  assume "SEASON_EPISODES cfg = [2, 3]"
  from update_counters_2_3[OF this]
  show "update_counters cfg 1 1 = ((1, 2), Next)" "update_counters cfg 1 2 = ((2, 1), Next)"
    "update_counters cfg 2 1 = ((2, 2), Next)" "update_counters cfg 2 2 = ((2, 3), Next)"
    "update_counters cfg 2 3 = ((3, 1), Break)" by simp_all
next
  assume h: "SEASON_EPISODES cfg = [2, 3] \<and> STARTING_SEASON cfg = 1 \<and> STARTING_EPISODE cfg = 1
        \<and> START_VIDEO_ID cfg = a \<and> a + 4 \<le> END_VIDEO_ID cfg"
  then have t: "SEASON_EPISODES cfg = [2, 3]" and "a + 4 \<le> END_VIDEO_ID cfg" by simp_all
  from upto_five[OF this(2)]
  have w: "cursor_walk cfg [a..END_VIDEO_ID cfg] 1 1
      = ([(a, 1, 1), (a + 1, 1, 2), (a + 2, 2, 1), (a + 3, 2, 2), (a + 4, 2, 3)], None)"
    by (simp add: update_counters_2_3[OF t] emit_def)
  from h w show "calls (trace (fst (scrape_videos cfg env)))
          = [(a, 1, 1), (a + 1, 1, 2), (a + 2, 2, 1), (a + 3, 2, 2), (a + 4, 2, 3)]"
    by (simp add: scrape_videos_calls)
  from h w show "snd (scrape_videos cfg env) = None"
    by (simp add: scrape_videos_raised)
qed

section \<open>The records of a run\<close>

lemma digits_range: "c \<in> set (digits n) \<Longrightarrow> 48 \<le> c \<and> c \<le> 57"
proof (induction n arbitrary: c rule: digits.induct)
  case (1 n)
  show ?case
  proof (cases "n < 10")
    case True
    with "1.prems" show ?thesis by (subst (asm) digits.simps) simp
  next
    case False
    with "1.prems" have "c \<in> set (digits (n div 10)) \<or> c = 48 + n mod 10"
      by (subst (asm) digits.simps) auto
    then show ?thesis
    proof
      assume "c \<in> set (digits (n div 10))"
      with "1.IH"[OF False] show ?thesis by simp
    next
      assume "c = 48 + n mod 10"
      moreover have "n mod 10 < 10" by simp
      ultimately show ?thesis by linarith
    qed
  qed
qed

lemma format_02d_safe: "c \<in> set (format_02d n) \<Longrightarrow> \<not> unsafe c"
proof -
  assume "c \<in> set (format_02d n)"
  then have "c = 45 \<or> c = 48 \<or> c \<in> set (digits (nat (- n))) \<or> c \<in> set (digits (nat n))"
    by (auto simp: format_02d_def zfill_def split: if_splits)
  with digits_range[of c] have "c = 45 \<or> (48 \<le> c \<and> c \<le> 57)" by auto
  then show ?thesis by (auto simp: unsafe_def)
qed

lemma extract_title_safe: "c \<in> set (extract_title page selectors) \<Longrightarrow> \<not> unsafe c"
proof (induction selectors)
  case Nil
  then show ?case by (auto simp: py_def unsafe_def)
next
  case (Cons selector rest)
  then show ?case
    by (auto simp: sanitize_filename_safe split: sum.splits option.splits if_splits)
qed

lemma create_filename_safe:
  assumes "\<forall>c \<in> set title. \<not> unsafe c" and "c \<in> set (create_filename s e title)"
  shows "\<not> unsafe c"
proof -
  from assms(2) have "c \<in> set (py ''S'') \<or> c \<in> set (format_02d s) \<or> c \<in> set (py ''-E'')
      \<or> c \<in> set (format_02d e) \<or> c \<in> set (py ''-'') \<or> c \<in> set title \<or> c \<in> set (py ''.mp4'')"
    by (auto simp: create_filename_def)
  moreover have "\<forall>c \<in> set (py ''S'') \<union> set (py ''-E'') \<union> set (py ''-'') \<union> set (py ''.mp4''). \<not> unsafe c"
    by (simp add: py_def unsafe_def)
  ultimately show ?thesis using assms(1) format_02d_safe by blast
qed

lemma get_video_info_filename_safe:
  assumes "snd (get_video_info cfg env vid s e) = Some (u, f)"
  shows "\<forall>c \<in> set f. \<not> unsafe c"
proof -
  from assms attempts_loop_result[of cfg env vid s e "[0..MAX_RETRIES cfg - 1]" u f]
  obtain page where "f = create_filename s e (extract_title page (TITLE_SELECTORS cfg))"
    by (auto simp: get_video_info_def)
  then show ?thesis using create_filename_safe extract_title_safe by blast
qed

lemma loop_body_appended:
  "videos (fst (loop_body cfg env vid st)) = videos st
   \<or> (\<exists>v. videos (fst (loop_body cfg env vid st)) = videos st @ [v] \<and> video_id v = vid
          \<and> (\<forall>c \<in> set (filename v). \<not> unsafe c))"
proof (cases "snd (get_video_info cfg env vid (st_season st) (st_episode st))")
  case None
  then show ?thesis by (simp add: loop_body_videos)
next
  case (Some r)
  obtain u f where r: "r = (u, f)" by (cases r)
  with Some get_video_info_filename_safe[of cfg env vid "st_season st" "st_episode st" u f]
  show ?thesis by (simp add: loop_body_videos)
qed

lemma scrape_loop_videos:
  assumes "sorted_wrt (<) ids"
    and "sorted_wrt (<) (map video_id (videos st))"
    and "\<forall>v \<in> set (videos st). \<forall>i \<in> set ids. video_id v < i"
    and "\<forall>v \<in> set (videos st). lo \<le> video_id v \<and> video_id v \<le> hi \<and> (\<forall>c \<in> set (filename v). \<not> unsafe c)"
    and "\<forall>i \<in> set ids. lo \<le> i \<and> i \<le> hi"
  shows "sorted_wrt (<) (map video_id (videos (fst (scrape_loop cfg env ids st))))
         \<and> (\<forall>v \<in> set (videos (fst (scrape_loop cfg env ids st))).
               lo \<le> video_id v \<and> video_id v \<le> hi \<and> (\<forall>c \<in> set (filename v). \<not> unsafe c))"
  using assms
proof (induction ids arbitrary: st)
  case Nil
  then show ?case by simp
next
  case (Cons vid rest)
  obtain st' c where lb: "loop_body cfg env vid st = (st', c)" by (cases "loop_body cfg env vid st")
  from lb loop_body_appended[of cfg env vid st]
  have app: "videos st' = videos st
     \<or> (\<exists>v. videos st' = videos st @ [v] \<and> video_id v = vid \<and> (\<forall>c \<in> set (filename v). \<not> unsafe c))"
    by simp
  have s': "sorted_wrt (<) (map video_id (videos st'))"
    using app Cons.prems(2,3) by (auto simp: sorted_wrt_append)
  have b': "\<forall>v \<in> set (videos st'). \<forall>i \<in> set rest. video_id v < i"
    using app Cons.prems(1,3) by auto
  have r': "\<forall>v \<in> set (videos st'). lo \<le> video_id v \<and> video_id v \<le> hi \<and> (\<forall>c \<in> set (filename v). \<not> unsafe c)"
    using app Cons.prems(4,5) by auto
  show ?case
  proof (cases c)
    case Next
    from Cons.prems(1) have "sorted_wrt (<) rest" by simp
    moreover from Cons.prems(5) have "\<forall>i \<in> set rest. lo \<le> i \<and> i \<le> hi" by simp
    ultimately show ?thesis using Cons.IH[OF _ s' b' r'] lb Next by simp
  next
    case Break
    with lb s' r' show ?thesis by simp
  next
    case (Raise x)
    with lb s' r' show ?thesis by simp
  qed
qed

lemma sorted_wrt_less_upto: "sorted_wrt (<) [i..j]"
  using sorted_upto[of i j] distinct_upto[of i j] strict_sorted_iff by blast

text \<open>
  Claim C3. In every run the \<open>video_id\<close> values of \<open>videos\<close> are strictly increasing in list
  order, every \<open>video_id\<close> lies between \<open>START_VIDEO_ID\<close> and \<open>END_VIDEO_ID\<close>, and no
  \<open>filename\<close> contains a backslash, slash, colon, asterisk, question mark, double quote,
  angle bracket or pipe.
\<close>

theorem scrape_videos_records:
  "sorted_wrt (<) (map video_id (videos (fst (scrape_videos cfg env))))
   \<and> (\<forall>v \<in> set (videos (fst (scrape_videos cfg env))).
         START_VIDEO_ID cfg \<le> video_id v \<and> video_id v \<le> END_VIDEO_ID cfg
         \<and> (\<forall>c \<in> set (filename v). \<not> unsafe c))"
  unfolding scrape_videos_def
  by (rule scrape_loop_videos) (simp_all add: sorted_wrt_less_upto)

section \<open>Pattern order, title fallback and retry exhaustion\<close>

lemma extract_video_url_skip:
  "\<forall>q \<in> set before. re_findall env q html = Inr [] \<Longrightarrow>
     extract_video_url env (before @ rest) html = extract_video_url env rest html"
  by (induction before) simp_all

lemma re_findall_none: "re_finditer env q html = Inr [] \<Longrightarrow> re_findall env q html = Inr []"
  by (simp add: re_findall_def)

lemma re_findall_first:
  "re_finditer env p html = Inr (m # ms) \<Longrightarrow>
     re_findall env p html = Inr (findall_item m # map findall_item ms)"
  by (simp add: re_findall_def)

lemma first_of_findall_item:
  "first_of (findall_item m) = (case captures m of [] \<Rightarrow> matched m | g # gs \<Rightarrow> g)"
  by (simp add: findall_item_def split: list.splits)

lemma extract_video_url_first:
  assumes "\<forall>q \<in> set before. re_finditer env q html = Inr []"
    and "re_finditer env p html = Inr (m # ms)"
  shows "extract_video_url env (before @ p # after) html
           = Inr (Some (case captures m of [] \<Rightarrow> matched m | g # gs \<Rightarrow> g))"
proof -
  from assms(1) have "\<forall>q \<in> set before. re_findall env q html = Inr []"
    by (simp add: re_findall_none)
  then have "extract_video_url env (before @ p # after) html = extract_video_url env (p # after) html"
    by (rule extract_video_url_skip)
  also have "\<dots> = Inr (Some (first_of (findall_item m)))"
    by (simp add: re_findall_first[OF assms(2)])
  finally show ?thesis by (simp only: first_of_findall_item)
qed

text \<open>
  Claim C6, as the code has it. For every body and every pattern list: when the patterns
  before \<open>p\<close> match nothing and \<open>m\<close> is the first match of \<open>p\<close>, the URL returned is the
  text \<open>m\<close> matched if \<open>p\<close> has no capture group, and the text of the first capture group
  of \<open>m\<close> if \<open>p\<close> has groups, whatever patterns follow and whatever else \<open>p\<close> matches; when
  no pattern matches anything the result is \<open>None\<close>.
\<close>

theorem extract_video_url_priority:
  "((\<forall>q \<in> set before. re_finditer env q html = Inr []) \<and> re_finditer env p html = Inr (m # ms)
      \<and> captures m = [] \<longrightarrow>
      extract_video_url env (before @ p # after) html = Inr (Some (matched m)))
   \<and> ((\<forall>q \<in> set before. re_finditer env q html = Inr []) \<and> re_finditer env p html = Inr (m # ms)
      \<and> captures m = g # gs \<longrightarrow>
      extract_video_url env (before @ p # after) html = Inr (Some g))
   \<and> ((\<forall>q \<in> set ps. re_finditer env q html = Inr []) \<longrightarrow> extract_video_url env ps html = Inr None)"
proof (intro conjI impI)
  assume h: "(\<forall>q \<in> set before. re_finditer env q html = Inr []) \<and> re_finditer env p html = Inr (m # ms)
      \<and> captures m = []"
  then have "extract_video_url env (before @ p # after) html
      = Inr (Some (case captures m of [] \<Rightarrow> matched m | g # gs \<Rightarrow> g))"
    by (intro extract_video_url_first) simp_all
  with h show "extract_video_url env (before @ p # after) html = Inr (Some (matched m))" by simp
next
  assume h: "(\<forall>q \<in> set before. re_finditer env q html = Inr []) \<and> re_finditer env p html = Inr (m # ms)
      \<and> captures m = g # gs"
  then have "extract_video_url env (before @ p # after) html
      = Inr (Some (case captures m of [] \<Rightarrow> matched m | g # gs \<Rightarrow> g))"
    by (intro extract_video_url_first) simp_all
  with h show "extract_video_url env (before @ p # after) html = Inr (Some g)" by simp
next
  assume "\<forall>q \<in> set ps. re_finditer env q html = Inr []"
  then have "\<forall>q \<in> set ps. re_findall env q html = Inr []" by (simp add: re_findall_none)
  then have "extract_video_url env (ps @ []) html = extract_video_url env [] html"
    by (rule extract_video_url_skip)
  then show "extract_video_url env ps html = Inr None" by simp
qed

lemma extract_title_skip:
  "\<forall>sel \<in> set before. selector_fails page sel \<Longrightarrow>
     extract_title page (before @ rest) = extract_title page rest"
  by (induction before)
     (auto simp: selector_fails_def lookup_def split: sum.splits option.splits if_splits)

lemma extract_title_hit:
  "lookup page sel = Inr (Some t) \<Longrightarrow> strip t \<noteq> [] \<Longrightarrow>
     extract_title page (sel # rest) = sanitize_filename (strip t)"
  by (auto simp: lookup_def split: if_splits)

lemma extract_title_placeholder:
  assumes "\<forall>sel \<in> set sels. selector_fails page sel"
  shows "extract_title page sels = py ''Unknown_Title''"
proof -
  from assms have "extract_title page (sels @ []) = extract_title page []"
    by (rule extract_title_skip)
  then show ?thesis by simp
qed

text \<open>
  Claim C8. When the selectors before \<open>sel\<close> fail and \<open>sel\<close> finds an element whose text is
  not blank, the title is that text, stripped and sanitized. When every selector fails the
  title is \<open>Unknown_Title\<close>. An attempt whose response is valid and whose body yields a
  URL returns that URL with the filename built from \<open>Unknown_Title\<close> when every selector
  fails: the missing title starts no retry and gives no failure.
\<close>

theorem extract_title_fallback:
  "((\<forall>sel \<in> set before. selector_fails page sel) \<and> lookup page sel = Inr (Some t) \<and> strip t \<noteq> [] \<longrightarrow>
      extract_title page (before @ sel # after) = sanitize_filename (strip t))
   \<and> ((\<forall>sel \<in> set sels. selector_fails page sel) \<longrightarrow> extract_title page sels = py ''Unknown_Title'')
   \<and> (session_get env vid k = Inr r \<and> \<not> handle_request_error cfg r
        \<and> BeautifulSoup env (response_text r) = Inr page
        \<and> extract_video_url env (VIDEO_URL_PATTERNS cfg) (response_text r) = Inr (Some u) \<and> u \<noteq> []
        \<and> (\<forall>sel \<in> set (TITLE_SELECTORS cfg). selector_fails page sel) \<longrightarrow>
      snd (attempt_body cfg env vid s e k)
        = Return (Some (u, create_filename s e (py ''Unknown_Title''))))"
proof (intro conjI impI)
  assume "(\<forall>sel \<in> set before. selector_fails page sel) \<and> lookup page sel = Inr (Some t) \<and> strip t \<noteq> []"
  then show "extract_title page (before @ sel # after) = sanitize_filename (strip t)"
    by (simp add: extract_title_skip extract_title_hit del: extract_title.simps)
next
  assume "\<forall>sel \<in> set sels. selector_fails page sel"
  then show "extract_title page sels = py ''Unknown_Title''" by (rule extract_title_placeholder)
next
  assume h: "session_get env vid k = Inr r \<and> \<not> handle_request_error cfg r
        \<and> BeautifulSoup env (response_text r) = Inr page
        \<and> extract_video_url env (VIDEO_URL_PATTERNS cfg) (response_text r) = Inr (Some u) \<and> u \<noteq> []
        \<and> (\<forall>sel \<in> set (TITLE_SELECTORS cfg). selector_fails page sel)"
  then have "extract_title page (TITLE_SELECTORS cfg) = py ''Unknown_Title''"
    using extract_title_placeholder by blast
  with h attempt_body_success[of env vid k r cfg page u s e]
  show "snd (attempt_body cfg env vid s e k) = Return (Some (u, create_filename s e (py ''Unknown_Title'')))"
    by simp
qed

text \<open>
  Claim C7. When every attempt for an identifier fails in a way that is retried, the
  fetcher returns \<open>None\<close> after exactly \<open>MAX_RETRIES\<close> GET requests, one per attempt and in
  order. The pass of the orchestrator loop for that identifier appends no record, logs the
  failure and goes on as the counters alone decide, and how the whole run ends is decided
  by the counters alone, never by a fetch.
\<close>

theorem retry_exhaustion:
  assumes "\<forall>attempt. 0 \<le> attempt \<and> attempt < MAX_RETRIES cfg \<longrightarrow> fails_retryably cfg env vid attempt"
  shows "snd (get_video_info cfg env vid s e) = None
    \<and> requests (fst (get_video_info cfg env vid s e)) = map (\<lambda>k. (vid, k)) [0..MAX_RETRIES cfg - 1]
    \<and> length (requests (fst (get_video_info cfg env vid s e))) = nat (MAX_RETRIES cfg)
    \<and> videos (fst (loop_body cfg env vid st)) = videos st
    \<and> skipped (trace (fst (loop_body cfg env vid st))) = skipped (trace st) @ [vid]
    \<and> snd (loop_body cfg env vid st) = snd (update_counters cfg (st_season st) (st_episode st))
    \<and> snd (scrape_videos cfg env)
        = snd (cursor_walk cfg [START_VIDEO_ID cfg..END_VIDEO_ID cfg]
                 (STARTING_SEASON cfg) (STARTING_EPISODE cfg))"
proof -
  note f = get_video_info_all_fail[OF assms]
  have "snd (get_video_info cfg env vid (st_season st) (st_episode st)) = None" by (rule f(1))
  then have "videos (fst (loop_body cfg env vid st)) = videos st"
    and "skipped (trace (fst (loop_body cfg env vid st))) = skipped (trace st) @ [vid]"
    by (simp_all add: loop_body_videos loop_body_skipped)
  moreover have "length (requests (fst (get_video_info cfg env vid s e))) = nat (MAX_RETRIES cfg)"
    by (simp add: f(2))
  ultimately show ?thesis
    using f[of s e] loop_body_control[of cfg env vid st] scrape_videos_raised[of cfg env]
    by simp
qed

section \<open>The link list round trip\<close>

lemma str_replace_append: "str_replace old new (a @ b) = str_replace old new a @ str_replace old new b"
  by (simp add: str_replace_def)

lemma str_replace_Cons:
  "str_replace old new (c # cs) = (if c = old then new else [c]) @ str_replace old new cs"
  by (simp add: str_replace_def)

lemma str_replace_Nil: "str_replace old new [] = []"
  by (simp add: str_replace_def)

lemma universal_newlines_cons:
  "c \<noteq> 13 \<Longrightarrow> universal_newlines (c # rest) = c # universal_newlines rest"
  by (cases rest) simp_all

lemma universal_newlines_written:
  "13 \<notin> set s \<Longrightarrow> universal_newlines (str_replace 10 (linesep sys) s) = s"
proof (induction s)
  case Nil
  show ?case by (simp add: str_replace_def)
next
  case (Cons c cs)
  then have ih: "universal_newlines (str_replace 10 (linesep sys) cs) = cs" and c: "c \<noteq> 13" by auto
  have "str_replace 10 (linesep sys) (c # cs)
          = (if c = 10 then linesep sys else [c]) @ str_replace 10 (linesep sys) cs"
    by (simp add: str_replace_def)
  with ih c show ?case
    by (cases sys) (simp_all add: universal_newlines_cons)
qed

lemma write_videos_blocks:
  assumes "\<forall>v \<in> set vs. list_all encodable (url v) \<and> list_all encodable (filename v)"
  shows "write_videos sys content vs = content @ str_replace 10 (linesep sys) (blocks vs)"
  using assms
proof (induction vs arbitrary: content)
  case Nil
  show ?case by (simp add: blocks_def str_replace_def)
next
  case (Cons v rest)
  then have e: "list_all encodable (url v)" "list_all encodable (filename v)" by simp_all
  have e1: "list_all encodable (url v @ [10])" using e by (simp add: encodable_def)
  have e2: "list_all encodable (py ''  out='' @ filename v @ [10, 10])"
    using e by (simp add: encodable_def py_def)
  from Cons.prems have "\<forall>v \<in> set rest. list_all encodable (url v) \<and> list_all encodable (filename v)"
    by simp
  note ih = Cons.IH[OF this]
  show ?case
    using e1 e2
    by (simp add: f_write_def ih blocks_def link_text_def str_replace_append str_replace_Cons
          str_replace_Nil)
qed

lemma split_on_line: "sep \<notin> set a \<Longrightarrow> split_on sep (a @ sep # rest) = a # split_on sep rest"
  by (induction a) (auto split: list.splits)

lemma split_on_last: "sep \<notin> set a \<Longrightarrow> split_on sep a = [a]"
  by (induction a) (auto split: list.splits)

lemma dropWhile_rev_last: "s \<noteq> [] \<Longrightarrow> \<not> P (last s) \<Longrightarrow> dropWhile P (rev s) = rev s"
  by (cases s rule: rev_cases) simp_all

lemma strip_trailing:
  assumes "s \<noteq> []" and "\<not> isspace (hd s)" and "\<not> isspace (last s)" and "\<forall>c \<in> set t. isspace c"
  shows "strip (s @ t) = s"
proof -
  from assms(1,2) have "dropWhile isspace (s @ t) = s @ t" by (cases s) simp_all
  moreover have "dropWhile isspace (rev t @ rev s) = dropWhile isspace (rev s)"
    using assms(4) by (simp add: dropWhile_append)
  ultimately show ?thesis
    using dropWhile_rev_last[of s isspace] assms(1,3) by (simp add: strip_def)
qed

lemma strip_id: "s \<noteq> [] \<Longrightarrow> \<not> isspace (hd s) \<Longrightarrow> \<not> isspace (last s) \<Longrightarrow> strip s = s"
  using strip_trailing[of s "[]"] by simp

lemma strip_empty: "strip [] = []"
  by (simp add: strip_def)

lemma startswith_https: "startswith u (py ''https://'') \<Longrightarrow> \<exists>t. u = 104 # t"
  by (cases u) (auto simp: startswith_def py_def)

lemma strip_url:
  assumes "startswith u (py ''https://'')" and "line_safe u"
  shows "strip u = u"
proof -
  from startswith_https[OF assms(1)] obtain t where u: "u = 104 # t" by blast
  then have "u \<noteq> []" and "\<not> isspace (hd u)" by (simp_all add: isspace_def)
  moreover from assms(2) u have "\<not> isspace (last u)" by (auto simp: line_safe_def)
  ultimately show ?thesis by (rule strip_id)
qed

lemma strip_out:
  assumes "line_safe fn"
  shows "strip (py ''  out='' @ fn) = py ''out='' @ fn"
proof -
  have l: "\<not> isspace (last (py ''out='' @ fn))"
    using assms by (cases "fn = []") (auto simp: line_safe_def py_def isspace_def)
  have "dropWhile isspace (py ''  out='' @ fn) = py ''out='' @ fn"
    by (simp add: py_def isspace_def)
  moreover have "dropWhile isspace (rev (py ''out='' @ fn)) = rev (py ''out='' @ fn)"
    using l by (intro dropWhile_rev_last) (simp_all add: py_def)
  ultimately show ?thesis by (simp add: strip_def)
qed

lemma out_not_https: "\<not> startswith (py ''out='' @ fn) (py ''https://'')"
  by (simp add: startswith_def py_def)

lemma out_startswith: "startswith (py ''out='' @ fn) (py ''out='')"
  by (simp add: startswith_def py_def)

lemma out_drop: "drop 4 (py ''out='' @ fn) = fn"
  by (simp add: py_def)

lemma parse_pair:
  assumes "startswith u (py ''https://'')" and "line_safe u" and "line_safe fn"
  shows "parse_lines (u # (py ''  out='' @ fn) # others) None acc
           = parse_lines others None (acc @ [(u, fn)])"
proof -
  from startswith_https[OF assms(1)] have ne: "u \<noteq> []" by auto
  have "parse_lines (u # (py ''  out='' @ fn) # others) None acc
          = parse_lines ((py ''  out='' @ fn) # others) (Some u) acc"
    using assms(1) by (simp add: strip_url[OF assms(1,2)])
  also have "\<dots> = parse_lines others None (acc @ [(u, fn)])"
    using ne by (simp add: strip_out[OF assms(3)] out_not_https out_startswith out_drop
                    del: drop_append)
  finally show ?thesis .
qed

lemma parse_blank: "parse_lines ([] # others) None acc = parse_lines others None acc"
  by (simp add: strip_empty startswith_def py_def)

lemma parse_link_lines:
  assumes "\<forall>v \<in> set vs. startswith (url v) (py ''https://'') \<and> line_safe (url v) \<and> line_safe (filename v)"
  shows "parse_lines (link_lines vs @ others) None acc
           = parse_lines others None (acc @ map (\<lambda>v. (url v, filename v)) vs)"
  using assms
proof (induction vs arbitrary: acc)
  case Nil
  show ?case by (simp add: link_lines_def)
next
  case (Cons v rest)
  then have v: "startswith (url v) (py ''https://'')" "line_safe (url v)" "line_safe (filename v)"
    and r: "\<forall>v \<in> set rest. startswith (url v) (py ''https://'') \<and> line_safe (url v) \<and> line_safe (filename v)"
    by simp_all
  have "link_lines (v # rest) @ others
          = url v # (py ''  out='' @ filename v) # [] # (link_lines rest @ others)"
    by (simp add: link_lines_def)
  then have "parse_lines (link_lines (v # rest) @ others) None acc
          = parse_lines (link_lines rest @ others) None (acc @ [(url v, filename v)])"
    by (simp only: parse_pair[OF v] parse_blank)
  also have "\<dots> = parse_lines others None ((acc @ [(url v, filename v)]) @ map (\<lambda>v. (url v, filename v)) rest)"
    by (rule Cons.IH[OF r])
  finally show ?case by simp
qed

lemma split_on_sep: "split_on sep (sep # rest) = [] # split_on sep rest"
  by simp

lemma split_blocks:
  assumes "\<forall>v \<in> set vs. 10 \<notin> set (url v) \<and> 10 \<notin> set (filename v)"
  shows "split_on 10 (blocks vs @ tail) = link_lines vs @ split_on 10 tail"
  using assms
proof (induction vs)
  case Nil
  show ?case by (simp add: blocks_def link_lines_def)
next
  case (Cons v rest)
  then have u: "10 \<notin> set (url v)" and f: "10 \<notin> set (py ''  out='' @ filename v)"
    and ih: "split_on 10 (blocks rest @ tail) = link_lines rest @ split_on 10 tail"
    by (simp_all add: py_def)
  have "blocks (v # rest) @ tail
          = url v @ 10 # ((py ''  out='' @ filename v) @ 10 # ([] @ 10 # (blocks rest @ tail)))"
    by (simp add: blocks_def link_text_def)
  then have "split_on 10 (blocks (v # rest) @ tail)
          = url v # (py ''  out='' @ filename v) # [] # split_on 10 (blocks rest @ tail)"
    by (simp only: split_on_line[OF u] split_on_line[OF f] split_on_sep append_Nil)
  with ih show ?case by (simp add: link_lines_def)
qed

lemma split_link_text:
  assumes "10 \<notin> set (url v)" and "10 \<notin> set (filename v)"
  shows "split_on 10 (link_text v) = [url v, py ''  out='' @ filename v]"
proof -
  have f: "10 \<notin> set (py ''  out='' @ filename v)" using assms(2) by (simp add: py_def)
  have "link_text v = url v @ 10 # (py ''  out='' @ filename v)" by (simp add: link_text_def)
  then show ?thesis by (simp only: split_on_line[OF assms(1)] split_on_last[OF f])
qed

lemma blocks_no_cr:
  assumes "\<forall>v \<in> set vs. 13 \<notin> set (url v) \<and> 13 \<notin> set (filename v)"
  shows "13 \<notin> set (blocks vs)"
  using assms by (induction vs) (simp_all add: blocks_def link_text_def py_def)

lemma blocks_snoc: "blocks (ws @ [v]) = (blocks ws @ link_text v) @ [10, 10]"
  by (simp add: blocks_def)

lemma blocks_hd:
  assumes "\<forall>v \<in> set (ws @ [v]). startswith (url v) (py ''https://'')"
  shows "\<exists>t. blocks ws @ link_text v = 104 # t"
proof (cases ws)
  case Nil
  with assms startswith_https[of "url v"] show ?thesis by (auto simp: blocks_def link_text_def)
next
  case (Cons w rest)
  with assms startswith_https[of "url w"] show ?thesis by (auto simp: blocks_def link_text_def)
qed

lemma link_text_last: "line_safe (filename v) \<Longrightarrow> \<not> isspace (last (blocks ws @ link_text v))"
proof -
  assume a: "line_safe (filename v)"
  have e: "blocks ws @ link_text v = (blocks ws @ url v @ [10] @ py ''  ou'') @ (py ''t='' @ filename v)"
    by (simp add: link_text_def py_def)
  have "py ''t='' @ filename v \<noteq> []" by (simp add: py_def)
  then have "last ((blocks ws @ url v @ [10] @ py ''  ou'') @ (py ''t='' @ filename v))
               = last (py ''t='' @ filename v)"
    by (rule last_appendR)
  with e have "last (blocks ws @ link_text v) = last (py ''t='' @ filename v)"
    by (simp only:)
  also have "\<not> isspace \<dots>"
    using a by (cases "filename v = []") (auto simp: line_safe_def py_def isspace_def)
  finally show ?thesis .
qed

lemma strip_blocks:
  assumes "\<forall>v \<in> set (ws @ [v]). startswith (url v) (py ''https://'')" and "line_safe (filename v)"
  shows "strip (blocks (ws @ [v])) = blocks ws @ link_text v"
proof -
  from blocks_hd[OF assms(1)] obtain t where t: "blocks ws @ link_text v = 104 # t" by blast
  have "strip ((blocks ws @ link_text v) @ [10, 10]) = blocks ws @ link_text v"
  proof (rule strip_trailing)
    show "blocks ws @ link_text v \<noteq> []" using t by simp
    show "\<not> isspace (hd (blocks ws @ link_text v))" using t by (simp add: isspace_def)
    show "\<not> isspace (last (blocks ws @ link_text v))" using assms(2) by (rule link_text_last)
    show "\<forall>c \<in> set [10, 10]. isspace c" by (simp add: isspace_def)
  qed
  then show ?thesis by (simp only: blocks_snoc)
qed

text \<open>
  Claim C4, as the code has it. For every list of records whose urls start with
  \<open>https://\<close>, and whose urls and filenames contain no line feed and no carriage return, do
  not end in whitespace and can be encoded in UTF-8, \<open>load_links\<close> on the file that
  \<open>save_download_links\<close> writes gives back the (url, filename) pairs, in order, on either
  operating system.
\<close>

theorem link_list_roundtrip:
  assumes "\<forall>v \<in> set vs. startswith (url v) (py ''https://'') \<and> line_safe (url v) \<and> line_safe (filename v)"
  shows "load_links (save_download_links sys vs) = map (\<lambda>v. (url v, filename v)) vs"
proof -
  have enc: "\<forall>v \<in> set vs. list_all encodable (url v) \<and> list_all encodable (filename v)"
    using assms by (simp add: line_safe_def)
  have cr: "13 \<notin> set (blocks vs)"
    using assms by (intro blocks_no_cr) (simp add: line_safe_def)
  have content: "universal_newlines (save_download_links sys vs) = blocks vs"
    using write_videos_blocks[OF enc, of sys "[]"] universal_newlines_written[OF cr, of sys]
    by (simp add: save_download_links_def)
  show ?thesis
  proof (cases vs rule: rev_cases)
    case Nil
    then show ?thesis
      using content by (simp add: load_links_def blocks_def strip_empty parse_blank)
  next
    case (snoc ws v)
    from assms snoc have h: "\<forall>v \<in> set (ws @ [v]). startswith (url v) (py ''https://'')"
      and fv: "line_safe (filename v)" and uv: "line_safe (url v)"
      and sv: "startswith (url v) (py ''https://'')"
      and ws: "\<forall>v \<in> set ws. startswith (url v) (py ''https://'') \<and> line_safe (url v) \<and> line_safe (filename v)"
      by simp_all
    from ws have nl: "\<forall>v \<in> set ws. 10 \<notin> set (url v) \<and> 10 \<notin> set (filename v)"
      by (simp add: line_safe_def)
    from uv fv have nlv: "10 \<notin> set (url v)" "10 \<notin> set (filename v)" by (simp_all add: line_safe_def)
    have "load_links (save_download_links sys vs)
            = parse_lines (split_on 10 (blocks ws @ link_text v)) None []"
      using content snoc by (simp add: load_links_def strip_blocks[OF h fv])
    also have "\<dots> = parse_lines (link_lines ws @ [url v, py ''  out='' @ filename v]) None []"
      by (simp only: split_blocks[OF nl] split_link_text[OF nlv])
    also have "\<dots> = parse_lines [url v, py ''  out='' @ filename v] None ([] @ map (\<lambda>v. (url v, filename v)) ws)"
      by (rule parse_link_lines[OF ws])
    also have "\<dots> = map (\<lambda>v. (url v, filename v)) ws @ [(url v, filename v)]"
      by (simp only: parse_pair[OF sv uv fv] parse_lines.simps(1) append_Nil)
    finally show ?thesis using snoc by simp
  qed
qed

section \<open>Runs that stop early\<close>

lemma scrape_videos_outcome_count:
  "records_for v (fst (scrape_videos cfg env)) + skips_for v (fst (scrape_videos cfg env))
     = count_list (attempted (trace (fst (scrape_videos cfg env)))) v"
proof -
  let ?ids = "[START_VIDEO_ID cfg..END_VIDEO_ID cfg]"
  let ?st0 = "\<lparr>videos = [], st_season = STARTING_SEASON cfg, st_episode = STARTING_EPISODE cfg, trace = []\<rparr>"
  from scrape_loop_outcome[of ?ids cfg env ?st0] show ?thesis
    by (auto simp: scrape_videos_def records_for_def skips_for_def)
qed

lemma scrape_videos_attempted:
  "attempted (trace (fst (scrape_videos cfg env)))
     = map fst (fst (cursor_walk cfg [START_VIDEO_ID cfg..END_VIDEO_ID cfg]
                       (STARTING_SEASON cfg) (STARTING_EPISODE cfg)))"
  by (simp add: attempted_calls scrape_videos_calls)

lemma overflow_walk:
  "cursor_walk (demo_config\<lparr>SEASON_EPISODES := [1]\<rparr>)
     [START_VIDEO_ID (demo_config\<lparr>SEASON_EPISODES := [1]\<rparr>)..
      END_VIDEO_ID (demo_config\<lparr>SEASON_EPISODES := [1]\<rparr>)]
     (STARTING_SEASON (demo_config\<lparr>SEASON_EPISODES := [1]\<rparr>))
     (STARTING_EPISODE (demo_config\<lparr>SEASON_EPISODES := [1]\<rparr>)) = ([(100, 1, 1)], None)"
  by (simp add: update_counters_def py_index_def Let_def demo_config_def)

text \<open>
  Claim C1 as stated fails. With one season of one episode and the range 100 to 102, the
  loop stops after identifier 100; identifier 101 is in the range and has neither a record
  nor a logged failure.
\<close>

theorem later_identifiers_counterexample:
  "101 \<in> set [START_VIDEO_ID (demo_config\<lparr>SEASON_EPISODES := [1]\<rparr>)..
               END_VIDEO_ID (demo_config\<lparr>SEASON_EPISODES := [1]\<rparr>)]
   \<and> records_for 101 (fst (scrape_videos (demo_config\<lparr>SEASON_EPISODES := [1]\<rparr>) demo_env)) = 0
   \<and> skips_for 101 (fst (scrape_videos (demo_config\<lparr>SEASON_EPISODES := [1]\<rparr>) demo_env)) = 0"
proof -
  let ?c = "demo_config\<lparr>SEASON_EPISODES := [1]\<rparr>"
  have "attempted (trace (fst (scrape_videos ?c demo_env))) = [100]"
    by (simp only: scrape_videos_attempted overflow_walk) simp
  with scrape_videos_outcome_count[of 101 ?c demo_env] show ?thesis
    by (simp add: demo_config_def)
qed


section \<open>Instances at the example inputs\<close>

text \<open>Claim C5 at a title with unsafe characters and runs of spaces.\<close>

theorem sanitize_filename_idempotent_witness:
  "sanitize_filename (sanitize_filename (py ''  a/b:  c '')) = sanitize_filename (py ''  a/b:  c '')"
  by (rule sanitize_filename_idempotent)

lemma demo_walk:
  "cursor_walk demo_config [START_VIDEO_ID demo_config..END_VIDEO_ID demo_config]
     (STARTING_SEASON demo_config) (STARTING_EPISODE demo_config)
     = ([(100, 1, 1), (101, 1, 2), (102, 2, 1)], None)"
  by (simp add: update_counters_def py_index_def Let_def demo_config_def emit_def)

lemma out_of_table_walk:
  "cursor_walk (demo_config\<lparr>STARTING_SEASON := 3\<rparr>)
     [START_VIDEO_ID (demo_config\<lparr>STARTING_SEASON := 3\<rparr>)..
      END_VIDEO_ID (demo_config\<lparr>STARTING_SEASON := 3\<rparr>)]
     (STARTING_SEASON (demo_config\<lparr>STARTING_SEASON := 3\<rparr>))
     (STARTING_EPISODE (demo_config\<lparr>STARTING_SEASON := 3\<rparr>))
     = ([(100, 3, 1)], Some IndexError)"
  by (simp add: update_counters_def py_index_def Let_def demo_config_def emit_def)

text \<open>Claim C10 at the example configuration, and at the same configuration started in a
  third season that the table of two seasons does not have.\<close>

theorem season_table_access_witness:
  "snd (scrape_videos demo_config demo_env) = None
   \<and> calls (trace (fst (scrape_videos demo_config demo_env))) = [(100, 1, 1), (101, 1, 2), (102, 2, 1)]
   \<and> snd (scrape_videos (demo_config\<lparr>STARTING_SEASON := 3\<rparr>) demo_env) = Some IndexError
   \<and> calls (trace (fst (scrape_videos (demo_config\<lparr>STARTING_SEASON := 3\<rparr>) demo_env))) = [(100, 3, 1)]"
proof -
  have a: "1 \<le> STARTING_SEASON demo_config
      \<and> STARTING_SEASON demo_config \<le> int (length (SEASON_EPISODES demo_config))"
    by (simp add: demo_config_def)
  have b: "int (length (SEASON_EPISODES (demo_config\<lparr>STARTING_SEASON := 3\<rparr>)))
        < STARTING_SEASON (demo_config\<lparr>STARTING_SEASON := 3\<rparr>)
      \<and> START_VIDEO_ID (demo_config\<lparr>STARTING_SEASON := 3\<rparr>)
        \<le> END_VIDEO_ID (demo_config\<lparr>STARTING_SEASON := 3\<rparr>)"
    by (simp add: demo_config_def)
  have c: "calls (trace (fst (scrape_videos demo_config demo_env))) = [(100, 1, 1), (101, 1, 2), (102, 2, 1)]"
    by (simp only: scrape_videos_calls demo_walk fst_conv)
  from a b c season_table_access[of demo_config demo_env]
    season_table_access[of "demo_config\<lparr>STARTING_SEASON := 3\<rparr>" demo_env]
  show ?thesis by (simp add: demo_config_def)
qed

text \<open>Claim C2 at the example configuration with the range 100 to 106, once with the
  session of which identifier 101 fails and once with the pages without a title.\<close>

theorem cursor_rollover_witness:
  "calls (trace (fst (scrape_videos (demo_config\<lparr>END_VIDEO_ID := 106\<rparr>) demo_env)))
     = [(100, 1, 1), (101, 1, 2), (102, 2, 1), (103, 2, 2), (104, 2, 3)]
   \<and> calls (trace (fst (scrape_videos (demo_config\<lparr>END_VIDEO_ID := 106\<rparr>) untitled_env)))
     = [(100, 1, 1), (101, 1, 2), (102, 2, 1), (103, 2, 2), (104, 2, 3)]
   \<and> snd (scrape_videos (demo_config\<lparr>END_VIDEO_ID := 106\<rparr>) demo_env) = None
   \<and> update_counters (demo_config\<lparr>END_VIDEO_ID := 106\<rparr>) 2 3 = ((3, 1), Break)"
proof -
  let ?c = "demo_config\<lparr>END_VIDEO_ID := 106\<rparr>"
  have h: "SEASON_EPISODES ?c = [2, 3]" "STARTING_SEASON ?c = 1" "STARTING_EPISODE ?c = 1"
    "START_VIDEO_ID ?c = 100" "100 + 4 \<le> END_VIDEO_ID ?c"
    by (simp_all add: demo_config_def)
  from h cursor_rollover[of ?c demo_env untitled_env 100] show ?thesis by auto
qed

text \<open>Claim C1 (as the code has it) at the run that stops after identifier 100.\<close>

theorem one_outcome_witness:
  "attempted (trace (fst (scrape_videos (demo_config\<lparr>SEASON_EPISODES := [1]\<rparr>) demo_env))) = [100]
   \<and> records_for 100 (fst (scrape_videos (demo_config\<lparr>SEASON_EPISODES := [1]\<rparr>) demo_env))
       + skips_for 100 (fst (scrape_videos (demo_config\<lparr>SEASON_EPISODES := [1]\<rparr>) demo_env)) = 1
   \<and> SeasonExceeded \<in> set (trace (fst (scrape_videos (demo_config\<lparr>SEASON_EPISODES := [1]\<rparr>) demo_env)))"
proof -
  let ?c = "demo_config\<lparr>SEASON_EPISODES := [1]\<rparr>"
  have att: "attempted (trace (fst (scrape_videos ?c demo_env))) = [100]"
    by (simp only: scrape_videos_attempted overflow_walk) simp
  have ret: "snd (scrape_videos ?c demo_env) = None"
    by (simp only: scrape_videos_raised overflow_walk snd_conv)
  have ne: "[100] \<noteq> [START_VIDEO_ID ?c..END_VIDEO_ID ?c]"
    by (simp add: demo_config_def)
  from scrape_videos_one_outcome_per_attempted_id[of ?c demo_env] att ret ne show ?thesis by simp
qed

lemma loop_body_last_sleep:
  assumes "snd (update_counters cfg (st_season st) (st_episode st)) = Next"
  shows "last (trace (fst (loop_body cfg env vid st))) = Sleep (MIN_DELAY cfg) (MAX_DELAY cfg)"
  using assms by (simp add: loop_body_def Let_def split: option.splits)

text \<open>
  Claim C9 fails on the code. With the range 100 to 100 the run processes one identifier,
  which is the last one, and still ends with the sleep of \<open>random.uniform(MIN_DELAY,
  MAX_DELAY)\<close>: the sleep is skipped only when the loop breaks on the season overflow.
\<close>

theorem sleep_after_last_identifier:
  "attempted (trace (fst (scrape_videos (demo_config\<lparr>END_VIDEO_ID := 100\<rparr>) env))) = [100]
   \<and> last (trace (fst (scrape_videos (demo_config\<lparr>END_VIDEO_ID := 100\<rparr>) env))) = Sleep 3 7"
proof -
  let ?c = "demo_config\<lparr>END_VIDEO_ID := 100\<rparr>"
  let ?st0 = "\<lparr>videos = [], st_season = STARTING_SEASON ?c, st_episode = STARTING_EPISODE ?c, trace = []\<rparr>"
  have ids: "[START_VIDEO_ID ?c..END_VIDEO_ID ?c] = [100]" by (simp add: demo_config_def)
  have uc: "snd (update_counters ?c (st_season ?st0) (st_episode ?st0)) = Next"
    by (simp add: update_counters_def py_index_def Let_def demo_config_def)
  obtain st' c where lb: "loop_body ?c env 100 ?st0 = (st', c)" by (cases "loop_body ?c env 100 ?st0")
  from lb uc loop_body_control[of ?c env 100 ?st0] have c: "c = Next" by simp
  from lb loop_body_last_sleep[OF uc, of env 100]
  have l: "last (trace st') = Sleep (MIN_DELAY ?c) (MAX_DELAY ?c)" by simp
  from lb loop_body_attempted[of ?c env 100 ?st0] have a: "attempted (trace st') = [100]" by simp
  have "scrape_videos ?c env = (st', None)"
    unfolding scrape_videos_def ids using lb c by simp
  with l a show ?thesis by (simp add: demo_config_def)
qed

text \<open>Claim C6 (as the code has it) at the example: pattern A matches nothing and pattern
  B, without groups, matches two URLs, of which the first is returned; and with the
  pattern B of two groups, where the first group is returned.\<close>

theorem extract_video_url_priority_witness:
  "extract_video_url demo_env [py ''A'', py ''B''] (py ''page'') = Inr (Some (py ''http://x/y.mp4''))
   \<and> extract_video_url grouped_env [py ''A'', py ''B''] (py ''page'') = Inr (Some (py ''http://x/y''))
   \<and> extract_video_url demo_env [py ''A''] (py ''page'') = Inr None"
proof -
  have a: "\<forall>q \<in> set [py ''A'']. re_finditer demo_env q (py ''page'') = Inr []"
    by (simp add: demo_env_def py_def)
  have b: "re_finditer demo_env (py ''B'') (py ''page'')
             = Inr (\<lparr>matched = py ''http://x/y.mp4'', captures = []\<rparr>
                    # [\<lparr>matched = py ''http://x/z.mp4'', captures = []\<rparr>])"
    by (simp add: demo_env_def)
  have c: "\<forall>q \<in> set [py ''A'']. re_finditer grouped_env q (py ''page'') = Inr []"
    by (simp add: grouped_env_def py_def)
  have d: "re_finditer grouped_env (py ''B'') (py ''page'')
             = Inr (\<lparr>matched = py ''http://x/y.mp4'', captures = [py ''http://x/y'', py ''.mp4'']\<rparr> # [])"
    by (simp add: grouped_env_def)
  from a b extract_video_url_priority[where before = "[py ''A'']" and env = demo_env
      and html = "py ''page''" and p = "py ''B''"
      and m = "\<lparr>matched = py ''http://x/y.mp4'', captures = []\<rparr>"
      and ms = "[\<lparr>matched = py ''http://x/z.mp4'', captures = []\<rparr>]"
      and after = "[]" and ps = "[py ''A'']"]
  have 1: "extract_video_url demo_env [py ''A'', py ''B''] (py ''page'') = Inr (Some (py ''http://x/y.mp4''))"
    and 3: "extract_video_url demo_env [py ''A''] (py ''page'') = Inr None"
    by simp_all
  from c d extract_video_url_priority[where before = "[py ''A'']" and env = grouped_env
      and html = "py ''page''" and p = "py ''B''"
      and m = "\<lparr>matched = py ''http://x/y.mp4'', captures = [py ''http://x/y'', py ''.mp4'']\<rparr>"
      and ms = "[]" and g = "py ''http://x/y''" and gs = "[py ''.mp4'']" and after = "[]"]
  have 2: "extract_video_url grouped_env [py ''A'', py ''B''] (py ''page'') = Inr (Some (py ''http://x/y''))"
    by simp
  from 1 2 3 show ?thesis by simp
qed

text \<open>
  Claim C6 as stated fails. Pattern A matches nothing and pattern B, which has two capture
  groups, matches \<open>http://x/y.mp4\<close>; the URL returned is the first group \<open>http://x/y\<close>, not
  the match of pattern B.
\<close>

theorem capture_group_counterexample:
  "re_finditer grouped_env (py ''A'') (py ''page'') = Inr []
   \<and> re_finditer grouped_env (py ''B'') (py ''page'')
       = Inr [\<lparr>matched = py ''http://x/y.mp4'', captures = [py ''http://x/y'', py ''.mp4'']\<rparr>]
   \<and> extract_video_url grouped_env [py ''A'', py ''B''] (py ''page'') = Inr (Some (py ''http://x/y''))
   \<and> py ''http://x/y'' \<noteq> py ''http://x/y.mp4''"
proof -
  have a: "re_finditer grouped_env (py ''A'') (py ''page'') = Inr []"
    by (simp add: grouped_env_def py_def)
  have b: "re_finditer grouped_env (py ''B'') (py ''page'')
       = Inr [\<lparr>matched = py ''http://x/y.mp4'', captures = [py ''http://x/y'', py ''.mp4'']\<rparr>]"
    by (simp add: grouped_env_def)
  from a have "\<forall>q \<in> set [py ''A'']. re_finditer grouped_env q (py ''page'') = Inr []" by simp
  from extract_video_url_first[OF this b, of "[]"]
  have c: "extract_video_url grouped_env [py ''A'', py ''B''] (py ''page'') = Inr (Some (py ''http://x/y''))"
    by simp
  have d: "py ''http://x/y'' \<noteq> py ''http://x/y.mp4''" by (simp add: py_def)
  from a b c d show ?thesis by blast
qed

text \<open>Claim C7 at identifier 101 of the example, whose body is always short: three
  requests, then \<open>None\<close>.\<close>

theorem retry_exhaustion_witness:
  "snd (get_video_info demo_config demo_env 101 1 2) = None
   \<and> requests (fst (get_video_info demo_config demo_env 101 1 2)) = [(101, 0), (101, 1), (101, 2)]
   \<and> length (requests (fst (get_video_info demo_config demo_env 101 1 2))) = 3"
proof -
  have f: "\<forall>attempt. 0 \<le> attempt \<and> attempt < MAX_RETRIES demo_config
      \<longrightarrow> fails_retryably demo_config demo_env 101 attempt"
    by (simp add: fails_retryably_def demo_env_def demo_config_def py_def)
  have m: "MAX_RETRIES demo_config = 3" by (simp add: demo_config_def)
  have u: "[0..2::int] = [0, 1, 2]" by (simp add: upto.simps)
  from retry_exhaustion[OF f, of 1 2 "\<lparr>videos = [], st_season = 1, st_episode = 2, trace = []\<rparr>"]
  show ?thesis by (simp add: m u)
qed

lemma demo_title: "sanitize_filename (strip (py '' Demo '')) = py ''Demo''"
  by (simp add: py_def strip_def isspace_def sanitize_filename_eq unsafe_def str_split_def)

lemma demo_response:
  "session_get demo_env 100 0 = Inr \<lparr>status_code = 200, response_text = py ''<h1> Demo </h1>''\<rparr>"
  by (simp add: demo_env_def)

lemma demo_response_ok:
  "\<not> handle_request_error demo_config \<lparr>status_code = 200, response_text = py ''<h1> Demo </h1>''\<rparr>"
  by (simp add: handle_request_error_def is_page_loaded_def demo_config_def py_def)

lemma demo_url:
  "extract_video_url demo_env (VIDEO_URL_PATTERNS demo_config) html = Inr (Some (py ''http://x/y.mp4''))"
  by (simp add: demo_env_def demo_config_def py_def re_findall_def findall_item_def)

lemma demo_url_nonempty: "py ''http://x/y.mp4'' \<noteq> []"
  by (simp add: py_def)

text \<open>Claim C8 at the example page, whose second selector finds the title, and at the page
  where every selector fails.\<close>

theorem extract_title_fallback_witness:
  "extract_title demo_page [py ''.title'', py ''h1''] = py ''Demo''
   \<and> extract_title blank_page [py ''.title'', py ''h1''] = py ''Unknown_Title''
   \<and> snd (attempt_body demo_config untitled_env 100 1 1 0)
       = Return (Some (py ''http://x/y.mp4'', create_filename 1 1 (py ''Unknown_Title'')))"
proof -
  have a: "(\<forall>sel \<in> set [py ''.title'']. selector_fails demo_page sel)
      \<and> lookup demo_page (py ''h1'') = Inr (Some (py '' Demo '')) \<and> strip (py '' Demo '') \<noteq> []"
    by (simp add: selector_fails_def lookup_def demo_page_def startswith_def py_def strip_def
          isspace_def)
  have b: "\<forall>sel \<in> set [py ''.title'', py ''h1'']. selector_fails blank_page sel"
    by (simp add: selector_fails_def lookup_def blank_page_def startswith_def py_def)
  have c: "session_get untitled_env 100 0
             = Inr \<lparr>status_code = 200, response_text = py ''<h1> Demo </h1>''\<rparr>
      \<and> \<not> handle_request_error demo_config \<lparr>status_code = 200, response_text = py ''<h1> Demo </h1>''\<rparr>
      \<and> BeautifulSoup untitled_env
            (response_text \<lparr>status_code = 200, response_text = py ''<h1> Demo </h1>''\<rparr>)
          = Inr blank_page
      \<and> extract_video_url untitled_env (VIDEO_URL_PATTERNS demo_config)
            (response_text \<lparr>status_code = 200, response_text = py ''<h1> Demo </h1>''\<rparr>)
          = Inr (Some (py ''http://x/y.mp4''))
      \<and> py ''http://x/y.mp4'' \<noteq> []
      \<and> (\<forall>sel \<in> set (TITLE_SELECTORS demo_config). selector_fails blank_page sel)"
    using b demo_response_ok demo_url_nonempty
    by (simp add: untitled_env_def demo_env_def demo_config_def re_findall_def findall_item_def)
  from a extract_title_fallback[where before = "[py ''.title'']" and page = demo_page
      and sel = "py ''h1''" and t = "py '' Demo ''" and after = "[]"]
  have 1: "extract_title demo_page [py ''.title'', py ''h1''] = py ''Demo''"
    by (simp add: demo_title del: extract_title.simps)
  from b c extract_title_fallback[where sels = "[py ''.title'', py ''h1'']" and page = blank_page
      and env = untitled_env and vid = 100 and k = 0 and cfg = demo_config
      and r = "\<lparr>status_code = 200, response_text = py ''<h1> Demo </h1>''\<rparr>"
      and u = "py ''http://x/y.mp4''" and s = 1 and e = 1]
  have 2: "extract_title blank_page [py ''.title'', py ''h1''] = py ''Unknown_Title''"
    and 3: "snd (attempt_body demo_config untitled_env 100 1 1 0)
       = Return (Some (py ''http://x/y.mp4'', create_filename 1 1 (py ''Unknown_Title'')))"
    by blast+
  from 1 2 3 show ?thesis by blast
qed

lemma scrape_loop_videos_prefix:
  "prefix (videos st) (videos (fst (scrape_loop cfg env ids st)))"
proof (induction ids arbitrary: st)
  case Nil
  show ?case by simp
next
  case (Cons vid rest)
  obtain st' c where lb: "loop_body cfg env vid st = (st', c)" by (cases "loop_body cfg env vid st")
  from lb loop_body_videos[of cfg env vid st] have p: "prefix (videos st) (videos st')"
    by (auto split: option.splits)
  show ?case
  proof (cases c)
    case Next
    with lb have "scrape_loop cfg env (vid # rest) st = scrape_loop cfg env rest st'" by simp
    with p Cons.IH[of st'] show ?thesis using prefix_order.trans by auto
  next
    case Break
    with lb p show ?thesis by simp
  next
    case (Raise x)
    with lb p show ?thesis by simp
  qed
qed

lemma demo_first_video:
  "videos (fst (scrape_videos demo_config demo_env)) \<noteq> []"
proof -
  let ?st0 = "\<lparr>videos = [], st_season = STARTING_SEASON demo_config,
               st_episode = STARTING_EPISODE demo_config, trace = []\<rparr>"
  have d: "BeautifulSoup demo_env (response_text \<lparr>status_code = 200, response_text = py ''<h1> Demo </h1>''\<rparr>)
             = Inr demo_page"
    by (simp add: demo_env_def)
  have "snd (attempt_body demo_config demo_env 100 1 1 0)
          = Return (Some (py ''http://x/y.mp4'',
                create_filename 1 1 (extract_title demo_page (TITLE_SELECTORS demo_config))))"
    using demo_response demo_response_ok d demo_url demo_url_nonempty
    by (rule attempt_body_success)
  moreover have "0 < MAX_RETRIES demo_config" by (simp add: demo_config_def)
  ultimately have g: "snd (get_video_info demo_config demo_env 100 1 1)
          = Some (py ''http://x/y.mp4'',
                create_filename 1 1 (extract_title demo_page (TITLE_SELECTORS demo_config)))"
    using get_video_info_first_attempt by blast
  have s0: "st_season ?st0 = 1" "st_episode ?st0 = 1" by (simp_all add: demo_config_def)
  have v1: "videos (fst (loop_body demo_config demo_env 100 ?st0)) \<noteq> []"
    by (simp only: loop_body_videos s0 g) simp
  have uc: "snd (update_counters demo_config 1 1) = Next"
    by (simp add: update_counters_def py_index_def Let_def demo_config_def)
  obtain st' c where lb: "loop_body demo_config demo_env 100 ?st0 = (st', c)"
    by (cases "loop_body demo_config demo_env 100 ?st0")
  from lb uc s0 loop_body_control[of demo_config demo_env 100 ?st0] have c: "c = Next" by simp
  have ids: "[START_VIDEO_ID demo_config..END_VIDEO_ID demo_config] = 100 # [101..102]"
    by (simp add: demo_config_def upto_rec1[of 100 102])
  have "scrape_videos demo_config demo_env = scrape_loop demo_config demo_env [101..102] st'"
    unfolding scrape_videos_def ids using lb c by simp
  moreover from lb v1 have "videos st' \<noteq> []" by simp
  ultimately show ?thesis
    using scrape_loop_videos_prefix[of st' demo_config demo_env "[101..102]"] by auto
qed

text \<open>Claim C3 at the example run, which holds at least the record of identifier 100.\<close>

theorem scrape_videos_records_witness:
  "videos (fst (scrape_videos demo_config demo_env)) \<noteq> []
   \<and> sorted_wrt (<) (map video_id (videos (fst (scrape_videos demo_config demo_env))))
   \<and> 100 \<le> video_id (hd (videos (fst (scrape_videos demo_config demo_env))))
   \<and> video_id (hd (videos (fst (scrape_videos demo_config demo_env)))) \<le> 102
   \<and> list_all (\<lambda>c. \<not> unsafe c) (filename (hd (videos (fst (scrape_videos demo_config demo_env)))))"
proof -
  have ne: "videos (fst (scrape_videos demo_config demo_env)) \<noteq> []" by (rule demo_first_video)
  then have "hd (videos (fst (scrape_videos demo_config demo_env)))
               \<in> set (videos (fst (scrape_videos demo_config demo_env)))"
    by simp
  with scrape_videos_records[of demo_config demo_env]
  have "START_VIDEO_ID demo_config \<le> video_id (hd (videos (fst (scrape_videos demo_config demo_env))))"
    and "video_id (hd (videos (fst (scrape_videos demo_config demo_env)))) \<le> END_VIDEO_ID demo_config"
    and "\<forall>c \<in> set (filename (hd (videos (fst (scrape_videos demo_config demo_env))))). \<not> unsafe c"
    and "sorted_wrt (<) (map video_id (videos (fst (scrape_videos demo_config demo_env))))"
    by blast+
  moreover have "START_VIDEO_ID demo_config = 100" "END_VIDEO_ID demo_config = 102"
    by (simp_all add: demo_config_def)
  ultimately show ?thesis using ne by (simp add: list_all_iff)
qed

text \<open>Claim C4 (as the code has it) at the record of the specification, with the line
  ends of both operating systems.\<close>

theorem link_list_roundtrip_witness:
  "load_links (save_download_links Windows [demo_video])
     = [(py ''https://x/a.mp4'', py ''S01-E01-Demo.mp4'')]
   \<and> load_links (save_download_links Posix [demo_video])
     = [(py ''https://x/a.mp4'', py ''S01-E01-Demo.mp4'')]"
proof -
  have h: "\<forall>v \<in> set [demo_video].
      startswith (url v) (py ''https://'') \<and> line_safe (url v) \<and> line_safe (filename v)"
    by (simp add: demo_video_def startswith_def line_safe_def py_def encodable_def isspace_def)
  from link_list_roundtrip[OF h, of Windows] link_list_roundtrip[OF h, of Posix]
  show ?thesis by (simp add: demo_video_def)
qed

lemma trailing_space_file:
  "universal_newlines (save_download_links Posix [trailing_space_video])
     = py ''https://x/a.mp4'' @ [10] @ py ''  out=a.mp4 '' @ [10, 10]"
proof -
  have e: "\<forall>v \<in> set [trailing_space_video].
      list_all encodable (url v) \<and> list_all encodable (filename v)"
    by (simp add: trailing_space_video_def py_def encodable_def)
  have cr: "13 \<notin> set (blocks [trailing_space_video])"
    by (simp add: blocks_def link_text_def trailing_space_video_def py_def)
  from write_videos_blocks[OF e, of Posix "[]"] universal_newlines_written[OF cr, of Posix]
  show ?thesis
    by (simp add: save_download_links_def blocks_def link_text_def trailing_space_video_def py_def)
qed

text \<open>
  Claim C4 as stated fails. A record whose url starts with \<open>https://\<close> and whose filename
  has no line feed but ends in a space comes back from the file without that space:
  \<open>load_links\<close> strips every line.
\<close>

theorem trailing_whitespace_counterexample:
  "startswith (url trailing_space_video) (py ''https://'')
   \<and> 10 \<notin> set (filename trailing_space_video)
   \<and> load_links (save_download_links Posix [trailing_space_video])
       = [(py ''https://x/a.mp4'', py ''a.mp4'')]
   \<and> load_links (save_download_links Posix [trailing_space_video])
       \<noteq> [(url trailing_space_video, filename trailing_space_video)]"
proof -
  have a: "startswith (url trailing_space_video) (py ''https://'')
      \<and> 10 \<notin> set (filename trailing_space_video)"
    by (simp add: trailing_space_video_def startswith_def py_def)
  have s: "strip (py ''https://x/a.mp4'' @ [10] @ py ''  out=a.mp4 '' @ [10, 10])
      = py ''https://x/a.mp4'' @ [10] @ py ''  out=a.mp4''"
    by (simp add: strip_def py_def isspace_def)
  have l: "split_on 10 (py ''https://x/a.mp4'' @ [10] @ py ''  out=a.mp4'')
      = [py ''https://x/a.mp4'', py ''  out=a.mp4'']"
    by (simp add: py_def)
  have p: "parse_lines [py ''https://x/a.mp4'', py ''  out=a.mp4''] None []
      = [(py ''https://x/a.mp4'', py ''a.mp4'')]"
    by (simp add: strip_def py_def isspace_def startswith_def)
  have b: "load_links (save_download_links Posix [trailing_space_video])
       = [(py ''https://x/a.mp4'', py ''a.mp4'')]"
    by (simp only: load_links_def trailing_space_file s l p)
  have "py ''a.mp4'' \<noteq> filename trailing_space_video"
    by (simp add: trailing_space_video_def py_def)
  with a b show ?thesis by simp
qed

end
